theory Spec2Isabelle
  imports Main "HOL-Library.Sublist"
begin

section \<open>JavaScript strings\<close>

text \<open>
  A JavaScript string is a sequence of UTF-16 code units. A code unit is modelled as a
  natural number (below 65536 in every real string; no definition depends on the bound),
  so that the characters outside ASCII that \<^verbatim>\<open>trim\<close>, \<^verbatim>\<open>\s\<close> and \<^verbatim>\<open>.\<close>
  distinguish, and the emoji of the comment body, are the ones the program sees.
  \<open>js\<close> turns an ASCII literal into such a string.
\<close>

type_synonym code_unit = nat
type_synonym jsstring = "code_unit list"

definition js :: "string \<Rightarrow> jsstring" where
  "js s = map of_char s"

text \<open>ECMAScript \<^verbatim>\<open>LineTerminator\<close>: LF, CR, U+2028, U+2029.\<close>

definition isLineTerminator :: "code_unit \<Rightarrow> bool" where
  "isLineTerminator c = (c = 10 \<or> c = 13 \<or> c = 8232 \<or> c = 8233)"

text \<open>
  ECMAScript \<^verbatim>\<open>WhiteSpace\<close> together with \<^verbatim>\<open>LineTerminator\<close>: the code units that
  \<^verbatim>\<open>String.prototype.trim\<close> strips and that \<^verbatim>\<open>\s\<close> matches (TAB, VT, FF, SP, NBSP,
  U+1680, U+2000 to U+200A, U+202F, U+205F, U+3000, U+FEFF and the line terminators).
\<close>

definition isWhiteSpace :: "code_unit \<Rightarrow> bool" where
  "isWhiteSpace c =
     (c = 9 \<or> c = 11 \<or> c = 12 \<or> c = 32 \<or> c = 160 \<or> c = 5760 \<or>
      (8192 \<le> c \<and> c \<le> 8202) \<or> c = 8239 \<or> c = 8287 \<or> c = 12288 \<or> c = 65279 \<or>
      isLineTerminator c)"

text \<open>\<^verbatim>\<open>\w\<close> is \<^verbatim>\<open>[A-Za-z0-9_]\<close>.\<close>

definition isWordChar :: "code_unit \<Rightarrow> bool" where
  "isWordChar c =
     ((97 \<le> c \<and> c \<le> 122) \<or> (65 \<le> c \<and> c \<le> 90) \<or> (48 \<le> c \<and> c \<le> 57) \<or> c = 95)"

text \<open>\<^verbatim>\<open>s.trim()\<close>\<close>

definition trim :: "jsstring \<Rightarrow> jsstring" where
  "trim s = rev (dropWhile isWhiteSpace (rev (dropWhile isWhiteSpace s)))"

text \<open>\<^verbatim>\<open>s.startsWith(p)\<close>\<close>

definition startsWith :: "jsstring \<Rightarrow> jsstring \<Rightarrow> bool" where
  "startsWith s p = (take (length p) s = p)"

text \<open>\<^verbatim>\<open>s.endsWith(p)\<close>\<close>

definition endsWith :: "jsstring \<Rightarrow> jsstring \<Rightarrow> bool" where
  "endsWith s p = (length p \<le> length s \<and> drop (length s - length p) s = p)"

text \<open>\<^verbatim>\<open>s.substring(a, e)\<close> for \<open>a \<le> e\<close>.\<close>

definition substring :: "jsstring \<Rightarrow> nat \<Rightarrow> nat \<Rightarrow> jsstring" where
  "substring s a e = take (e - a) (drop a s)"

text \<open>
  \<^verbatim>\<open>s.split('\n')\<close>: the pieces between the line feeds; a string without a line feed is
  its own single piece, and a trailing line feed leaves an empty last piece.
\<close>

function split_nl :: "jsstring \<Rightarrow> jsstring list" where
  "split_nl s =
     (case dropWhile (\<lambda>c. c \<noteq> 10) s of
        [] \<Rightarrow> [takeWhile (\<lambda>c. c \<noteq> 10) s]
      | _ # rest \<Rightarrow> takeWhile (\<lambda>c. c \<noteq> 10) s # split_nl rest)"
  by pat_completeness auto
termination
proof (relation "measure length")
  fix s :: jsstring and x rest
  assume "dropWhile (\<lambda>c. c \<noteq> 10) s = x # rest"
  then have "length (x # rest) \<le> length s"
    using length_dropWhile_le [of "\<lambda>c. c \<noteq> 10" s] by simp
  then show "(rest, s) \<in> measure length" by simp
qed simp

declare split_nl.simps [simp del]

text \<open>\<^verbatim>\<open>xs.join(sep)\<close>\<close>

fun join :: "jsstring \<Rightarrow> jsstring list \<Rightarrow> jsstring" where
  "join sep [] = []"
| "join sep [x] = x"
| "join sep (x # y # ys) = x @ sep @ join sep (y # ys)"

text \<open>The decimal digits of a number, as a template literal \<^verbatim>\<open>${n}\<close> prints them.\<close>

function numberToString :: "nat \<Rightarrow> jsstring" where
  "numberToString n =
     (if n < 10 then [48 + n] else numberToString (n div 10) @ [48 + n mod 10])"
  by pat_completeness auto
termination
  by (relation "measure id") auto

declare numberToString.simps [simp del]

section \<open>The metric extractors\<close>

subsection \<open>countLines\<close>

text \<open>
  \<^verbatim>\<open>
  function countLines(content) {
    return content.split('\n').filter((line) => {
      const trimmed = line.trim();
      return (
        trimmed &&
        !trimmed.startsWith('//') &&
        !trimmed.startsWith('/*') &&
        !trimmed.startsWith('*') &&
        !trimmed.startsWith('import ') &&
        !trimmed.startsWith('export ')
      );
    }).length;
  }
  \<close>
  A string is truthy when it is not empty.
\<close>

definition lineFilter :: "jsstring \<Rightarrow> bool" where
  "lineFilter line =
     (let trimmed = trim line in
        trimmed \<noteq> [] \<and>
        \<not> startsWith trimmed (js ''//'') \<and>
        \<not> startsWith trimmed (js ''/*'') \<and>
        \<not> startsWith trimmed (js ''*'') \<and>
        \<not> startsWith trimmed (js ''import '') \<and>
        \<not> startsWith trimmed (js ''export ''))"

definition countLines :: "jsstring \<Rightarrow> nat" where
  "countLines content = length (filter lineFilter (split_nl content))"

subsection \<open>Regular expressions\<close>

text \<open>
  The regular expressions of the source use literal characters, the classes \<^verbatim>\<open>\s\<close>,
  \<^verbatim>\<open>\w\<close> and \<^verbatim>\<open>.\<close>, the assertion \<^verbatim>\<open>^\<close>, sequence, alternation and the greedy
  quantifiers \<^verbatim>\<open>*\<close>, \<^verbatim>\<open>+\<close> and \<^verbatim>\<open>?\<close>. Groups only shape the tree: no capture is read
  but the whole match (\<^verbatim>\<open>m[0]\<close>), and there are no back-references.
\<close>

datatype atom = Lit code_unit | Space | Word | Dot

datatype regex =
    Eps
  | Atom atom
  | Bol
  | Seq regex regex
  | Alt regex regex
  | Star regex
  | Opt regex

text \<open>\<^verbatim>\<open>r+\<close> is one \<open>r\<close> followed by \<^verbatim>\<open>r*\<close>.\<close>

definition Plus :: "regex \<Rightarrow> regex" where
  "Plus r = Seq r (Star r)"

text \<open>A run of literal characters, and a sequence of several parts.\<close>

fun lit :: "string \<Rightarrow> regex" where
  "lit [] = Eps"
| "lit [c] = Atom (Lit (of_char c))"
| "lit (c # cs) = Seq (Atom (Lit (of_char c))) (lit cs)"

fun seqs :: "regex list \<Rightarrow> regex" where
  "seqs [] = Eps"
| "seqs [r] = r"
| "seqs (r # rs) = Seq r (seqs rs)"

text \<open>The flags \<^verbatim>\<open>i\<close> and \<^verbatim>\<open>m\<close>; the flag \<^verbatim>\<open>g\<close> is the loop \<open>matchAllFrom\<close> below.\<close>

record flags =
  ignoreCase :: bool
  multiline :: bool

text \<open>
  Under \<^verbatim>\<open>i\<close> (without \<^verbatim>\<open>u\<close>) two code units match when their canonical forms are
  equal. The canonical form of a code unit is its upper case, except that a code unit
  from 128 on is never mapped below 128. Every literal of the source is ASCII, and the
  only code units whose canonical form is an ASCII letter are that letter and its lower
  case, so on the comparisons the program makes \<^verbatim>\<open>Canonicalize\<close> is the ASCII upper case.
\<close>

definition canonicalize :: "code_unit \<Rightarrow> code_unit" where
  "canonicalize c = (if 97 \<le> c \<and> c \<le> 122 then c - 32 else c)"

fun atom_matches :: "flags \<Rightarrow> atom \<Rightarrow> code_unit \<Rightarrow> bool" where
  "atom_matches fl (Lit p) c =
     (if ignoreCase fl then canonicalize p = canonicalize c else p = c)"
| "atom_matches fl Space c = isWhiteSpace c"
| "atom_matches fl Word c = isWordChar c"
| "atom_matches fl Dot c = (\<not> isLineTerminator c)"

text \<open>
  The backtracking matcher. \<open>ends fl r s i\<close> lists the end indices of the matches of \<open>r\<close>
  in \<open>s\<close> that start at index \<open>i\<close>, in the order in which backtracking tries them: the left
  alternative first, the longest repetition first. The match the engine reports is the
  first of the list. An iteration of \<^verbatim>\<open>*\<close> or \<^verbatim>\<open>?\<close> that consumes nothing is rejected, as
  ECMAScript's \<^verbatim>\<open>RepeatMatcher\<close> does.
\<close>

function ends :: "flags \<Rightarrow> regex \<Rightarrow> jsstring \<Rightarrow> nat \<Rightarrow> nat list" where
  "ends fl Eps s i = [i]"
| "ends fl (Atom a) s i =
     (if i < length s then (if atom_matches fl a (s ! i) then [Suc i] else []) else [])"
| "ends fl Bol s i =
     (if i = 0 then [i]
      else if multiline fl \<and> i \<le> length s \<and> isLineTerminator (s ! (i - 1)) then [i]
      else [])"
| "ends fl (Seq a b) s i = concat (map (\<lambda>j. ends fl b s j) (ends fl a s i))"
| "ends fl (Alt a b) s i = ends fl a s i @ ends fl b s i"
| "ends fl (Star a) s i =
     concat (map (\<lambda>j. if i < j \<and> j \<le> length s then ends fl (Star a) s j else [])
                 (ends fl a s i)) @ [i]"
| "ends fl (Opt a) s i = filter (\<lambda>j. j \<noteq> i) (ends fl a s i) @ [i]"
  by pat_completeness auto
termination
proof (relation "measures [\<lambda>(fl, r, s, i). size r, \<lambda>(fl, r, s, i). length s - i]")
  fix fl :: flags and a :: regex and s :: jsstring and i x :: nat
  assume "i < x \<and> x \<le> length s"
  then show "((fl, Star a, s, x), (fl, Star a, s, i))
      \<in> measures [\<lambda>(fl, r, s, i). size r, \<lambda>(fl, r, s, i). length s - i]"
    by simp arith
qed simp_all

declare ends.simps(6) [simp del]

text \<open>
  \<^verbatim>\<open>RegExpBuiltinExec\<close> for a regular expression that is not sticky: the match is tried at
  \<^verbatim>\<open>lastIndex\<close>, then one index further, until it succeeds or the index passes the end of
  the string. The result is the start and the end index of the match.
\<close>

function regexExec :: "flags \<Rightarrow> regex \<Rightarrow> jsstring \<Rightarrow> nat \<Rightarrow> (nat \<times> nat) option" where
  "regexExec fl r s i =
     (if length s < i then None
      else (case ends fl r s i of
              e # _ \<Rightarrow> Some (i, e)
            | [] \<Rightarrow> regexExec fl r s (Suc i)))"
  by pat_completeness auto
termination
  by (relation "measure (\<lambda>(fl, r, s, i). Suc (length s) - i)") auto

declare regexExec.simps [simp del]

text \<open>A match never ends before it starts, and the search only moves forward.\<close>

lemma ends_ge: "j \<in> set (ends fl r s i) \<Longrightarrow> i \<le> j"
proof (induction fl r s i arbitrary: j rule: ends.induct)
  case (1 fl s i)
  then show ?case by simp
next
  case (2 fl a s i)
  then show ?case by (simp split: if_splits)
next
  case (3 fl s i)
  then show ?case by (simp split: if_splits)
next
  case (4 fl a b s i)
  from "4.prems" obtain k where k: "k \<in> set (ends fl a s i)" "j \<in> set (ends fl b s k)"
    by auto
  from "4.IH"(1) [OF k(1)] "4.IH"(2) [OF k] show ?case by simp
next
  case (5 fl a b s i)
  then show ?case by auto
next
  case (6 fl a s i)
  from "6.prems" consider "j = i"
    | k where "k \<in> set (ends fl a s i)" "i < k" "k \<le> length s"
        "j \<in> set (ends fl (Star a) s k)"
    by (auto simp: ends.simps(6) [of fl a s i] split: if_splits)
  then show ?case
  proof cases
    case 1
    then show ?thesis by simp
  next
    case 2
    from "6.IH"(2) [OF 2(1) _ 2(4)] 2(2,3) show ?thesis by simp
  qed
next
  case (7 fl a s i)
  then show ?case by auto
qed

lemma regexExec_Some:
  "regexExec fl r s i = Some (a, e) \<Longrightarrow> i \<le> a \<and> a \<le> length s \<and> a \<le> e"
proof (induction fl r s i rule: regexExec.induct)
  case (1 fl r s i)
  show ?case
  proof (cases "ends fl r s i")
    case Nil
    with 1 show ?thesis
      by (auto simp: regexExec.simps [of fl r s i] split: if_splits)
  next
    case (Cons e' es)
    then have "e' \<in> set (ends fl r s i)" by simp
    then have "i \<le> e'" by (rule ends_ge)
    with 1 Cons show ?thesis
      by (auto simp: regexExec.simps [of fl r s i] split: if_splits)
  qed
qed

text \<open>
  The loop of a global (\<^verbatim>\<open>g\<close>) regular expression, shared by \<^verbatim>\<open>String.prototype.match\<close>
  and \<^verbatim>\<open>String.prototype.matchAll\<close>: each search starts where the last match ended, one
  index further after an empty match, and the loop ends with the first failed search.
\<close>

function matchAllFrom :: "flags \<Rightarrow> regex \<Rightarrow> jsstring \<Rightarrow> nat \<Rightarrow> (nat \<times> nat) list" where
  "matchAllFrom fl r s i =
     (case regexExec fl r s i of
        None \<Rightarrow> []
      | Some (a, e) \<Rightarrow> (a, e) # matchAllFrom fl r s (if e = a then Suc e else e))"
  by pat_completeness auto
termination
proof (relation "measure (\<lambda>(fl, r, s, i). Suc (Suc (length s)) - i)")
  fix fl :: flags and r :: regex and s :: jsstring and i :: nat and x2 a e
  assume "regexExec fl r s i = Some x2" and "(a, e) = x2"
  then have "i \<le> a \<and> a \<le> length s \<and> a \<le> e"
    using regexExec_Some [of fl r s i a e] by simp
  then show "((fl, r, s, if e = a then Suc e else e), (fl, r, s, i))
      \<in> measure (\<lambda>(fl, r, s, i). Suc (Suc (length s)) - i)"
    by auto
qed simp

declare matchAllFrom.simps [simp del]

text \<open>
  \<^verbatim>\<open>s.matchAll(re)\<close> gives the matches one by one; \<^verbatim>\<open>s.match(re)\<close> with a global \<open>re\<close>
  gives the array of the matched strings, and \<^verbatim>\<open>null\<close> when there is no match.
\<close>

definition matchAll :: "flags \<Rightarrow> regex \<Rightarrow> jsstring \<Rightarrow> (nat \<times> nat) list" where
  "matchAll fl r s = matchAllFrom fl r s 0"

definition stringMatch :: "flags \<Rightarrow> regex \<Rightarrow> jsstring \<Rightarrow> jsstring list option" where
  "stringMatch fl r s =
     (case matchAll fl r s of
        [] \<Rightarrow> None
      | m # ms \<Rightarrow> Some (map (\<lambda>(a, e). substring s a e) (m # ms)))"

text \<open>\<^verbatim>\<open>x || []\<close> for an \<open>x\<close> that is an array or \<^verbatim>\<open>null\<close>.\<close>

definition orEmpty :: "'a list option \<Rightarrow> 'a list" where
  "orEmpty x = (case x of None \<Rightarrow> [] | Some xs \<Rightarrow> xs)"

subsection \<open>countMethods\<close>

text \<open>
  \<^verbatim>\<open>
  function countMethods(content) {
    const functionRegex =
      /(?:function\s+\w+|\w+\s*=\s*\(.*\)\s*=>|\w+\s*:\s*function|^\s*\w+\(.*\)\s*{)/gm;
    const arrowFunctionRegex = /(?:const|let|var)\s+\w+\s*=\s*\(.*\)\s*=>/gm;
    const regularFunctionRegex = /function\s+\w+\s*\(.*\)\s*{/gm;

    const functionMatches = (content.match(functionRegex) || []).length;
    const arrowMatches = (content.match(arrowFunctionRegex) || []).length;
    const regularMatches = (content.match(regularFunctionRegex) || []).length;

    return functionMatches + arrowMatches + regularMatches;
  }
  \<close>
\<close>

definition gm :: flags where
  "gm = \<lparr>ignoreCase = False, multiline = True\<rparr>"

definition functionRegex :: regex where
  "functionRegex =
     Alt (seqs [lit ''function'', Plus (Atom Space), Plus (Atom Word)])
    (Alt (seqs [Plus (Atom Word), Star (Atom Space), lit ''='', Star (Atom Space),
                lit ''('', Star (Atom Dot), lit '')'', Star (Atom Space), lit ''=>''])
    (Alt (seqs [Plus (Atom Word), Star (Atom Space), lit '':'', Star (Atom Space),
                lit ''function''])
         (seqs [Bol, Star (Atom Space), Plus (Atom Word), lit ''('', Star (Atom Dot),
                lit '')'', Star (Atom Space), lit ''{''])))"

definition arrowFunctionRegex :: regex where
  "arrowFunctionRegex =
     seqs [Alt (lit ''const'') (Alt (lit ''let'') (lit ''var'')), Plus (Atom Space),
           Plus (Atom Word), Star (Atom Space), lit ''='', Star (Atom Space),
           lit ''('', Star (Atom Dot), lit '')'', Star (Atom Space), lit ''=>'']"

definition regularFunctionRegex :: regex where
  "regularFunctionRegex =
     seqs [lit ''function'', Plus (Atom Space), Plus (Atom Word), Star (Atom Space),
           lit ''('', Star (Atom Dot), lit '')'', Star (Atom Space), lit ''{'']"

definition countMethods :: "jsstring \<Rightarrow> nat" where
  "countMethods content =
     (let functionMatches = length (orEmpty (stringMatch gm functionRegex content));
          arrowMatches = length (orEmpty (stringMatch gm arrowFunctionRegex content));
          regularMatches = length (orEmpty (stringMatch gm regularFunctionRegex content))
      in functionMatches + arrowMatches + regularMatches)"

subsection \<open>findTodos\<close>

text \<open>
  \<^verbatim>\<open>
  function findTodos(content) {
    const regex = /(\/\/|#|\*)\s*(TODO|FIXME):?\s*(.*)/gi;
    const matches = content.matchAll(regex);
    return Array.from(matches, (m) => m[0].trim());
  }
  \<close>
\<close>

definition gi :: flags where
  "gi = \<lparr>ignoreCase = True, multiline = False\<rparr>"

definition todoRegex :: regex where
  "todoRegex =
     seqs [Alt (lit ''//'') (Alt (lit ''#'') (lit ''*'')), Star (Atom Space),
           Alt (lit ''TODO'') (lit ''FIXME''), Opt (lit '':''), Star (Atom Space),
           Star (Atom Dot)]"

definition findTodos :: "jsstring \<Rightarrow> jsstring list" where
  "findTodos content =
     map (\<lambda>(a, e). trim (substring content a e)) (matchAll gi todoRegex content)"

section \<open>The pull-request handler\<close>

text \<open>
  The handler of \<^verbatim>\<open>pull_request.opened\<close> and \<^verbatim>\<open>pull_request.synchronize\<close>. What it
  reads from the outside is gathered in one record: the three calls of the installation's
  \<^verbatim>\<open>octokit\<close> (owner, repository, pull number and head commit are fixed during one run,
  so each call is a function of what remains) and Node's
  \<^verbatim>\<open>Buffer.from(x, 'base64').toString()\<close>. A call that rejects gives \<open>Inl\<close> of the error.
  \<^verbatim>\<open>getContent\<close> answers with the base64 text of \<^verbatim>\<open>data.content\<close>, or with \<open>None\<close>
  when the answer has no such field (a directory); \<^verbatim>\<open>Buffer.from(undefined, 'base64')\<close>
  then throws a \<^verbatim>\<open>TypeError\<close>.
\<close>

datatype error = RequestError jsstring | InvalidArgType

record changed_file =
  filename :: jsstring
  patch :: "jsstring option"

record env =
  listFiles :: "error + changed_file list"
  getContent :: "jsstring \<Rightarrow> error + jsstring option"
  decodeBase64 :: "jsstring \<Rightarrow> jsstring"
  createComment :: "jsstring \<Rightarrow> error + unit"

text \<open>
  A line of the log: the message of \<^verbatim>\<open>app.log.info\<close> or \<^verbatim>\<open>app.log.error\<close>, and the
  error whose message is logged with it. The objects printed beside a message (the
  payload, the metrics of a file) are left out.
\<close>

datatype log_entry = LogInfo jsstring | LogError jsstring "error option"

text \<open>The variables of the loop over the changed files, and the log written so far.\<close>

record analysis =
  issues :: "jsstring list"
  todoComments :: "jsstring list"
  pkgJsonModified :: bool
  pkgLockModified :: bool
  logged :: "log_entry list"

definition initial :: "log_entry list \<Rightarrow> analysis" where
  "initial l =
     \<lparr>issues = [], todoComments = [], pkgJsonModified = False, pkgLockModified = False,
      logged = l\<rparr>"

text \<open>\<^verbatim>\<open>file.patch\<close> as a condition: a string that is present and not empty.\<close>

definition truthy :: "jsstring option \<Rightarrow> bool" where
  "truthy p = (case p of None \<Rightarrow> False | Some s \<Rightarrow> s \<noteq> [])"

text \<open>
  \<^verbatim>\<open>
  (filename.endsWith('.js') || filename.endsWith('.tsx') || filename.endsWith('.ts'))
    && file.patch
  \<close>
\<close>

definition eligible :: "changed_file \<Rightarrow> bool" where
  "eligible file =
     ((endsWith (filename file) (js ''.js'') \<or> endsWith (filename file) (js ''.tsx'') \<or>
       endsWith (filename file) (js ''.ts'')) \<and> truthy (patch file))"

text \<open>
  The three pushed lines. The fire emoji is the surrogate pair D83D DD25, the brain D83E DDE0.
  \<^verbatim>\<open>
  `- \`${filename}\`: LOC = ${loc} (fire)`
  `- \`${filename}\`: Method Count = ${nom} (brain)`
  `- \`${filename}\`: ${todo}`
  \<close>
\<close>

definition locIssue :: "jsstring \<Rightarrow> nat \<Rightarrow> jsstring" where
  "locIssue fname loc =
     js ''- `'' @ fname @ js ''`: LOC = '' @ numberToString loc @ js '' '' @ [55357, 56613]"

definition nomIssue :: "jsstring \<Rightarrow> nat \<Rightarrow> jsstring" where
  "nomIssue fname nom =
     js ''- `'' @ fname @ js ''`: Method Count = '' @ numberToString nom @ js '' '' @
     [55358, 56800]"

definition todoComment :: "jsstring \<Rightarrow> jsstring \<Rightarrow> jsstring" where
  "todoComment fname todo = js ''- `'' @ fname @ js ''`: '' @ todo"

text \<open>
  The body of the inner \<^verbatim>\<open>try\<close> once the content is decoded (lines 107 to 138): the three
  extractors, the log line, then the check of the lines, the check of the methods and the
  todo entries, in this order.
\<close>

definition analyzeContent :: "jsstring \<Rightarrow> jsstring \<Rightarrow> analysis \<Rightarrow> analysis" where
  "analyzeContent fname content st =
     (let loc = countLines content;
          nom = countMethods content;
          todos = findTodos content;
          st1 = st\<lparr>logged := logged st @ [LogInfo (js ''Analyzing '' @ fname @ js '':'')]\<rparr>;
          st2 = (if loc > 200 then st1\<lparr>issues := issues st1 @ [locIssue fname loc]\<rparr> else st1);
          st3 = (if nom > 8 then st2\<lparr>issues := issues st2 @ [nomIssue fname nom]\<rparr> else st2)
      in if length todos > 0
         then st3\<lparr>todoComments := todoComments st3 @ map (todoComment fname) todos\<rparr>
         else st3)"

text \<open>The \<^verbatim>\<open>catch\<close> of the inner \<^verbatim>\<open>try\<close>: the error is logged and the loop goes on.\<close>

definition analyzeFailed :: "jsstring \<Rightarrow> error \<Rightarrow> analysis \<Rightarrow> analysis" where
  "analyzeFailed fname e st =
     st\<lparr>logged := logged st @ [LogError (js ''Error analyzing '' @ fname @ js '':'') (Some e)]\<rparr>"

text \<open>One round of the loop \<^verbatim>\<open>for (const file of filesChanged.data)\<close> (lines 82 to 147).\<close>

definition analyzeFile :: "env \<Rightarrow> analysis \<Rightarrow> changed_file \<Rightarrow> analysis" where
  "analyzeFile api st file =
     (let fname = filename file;
          st1 = (if eligible file
                 then (case getContent api fname of
                         Inl e \<Rightarrow> analyzeFailed fname e st
                       | Inr None \<Rightarrow> analyzeFailed fname InvalidArgType st
                       | Inr (Some b64) \<Rightarrow> analyzeContent fname (decodeBase64 api b64) st)
                 else st);
          st2 = (if fname = js ''package.json'' then st1\<lparr>pkgJsonModified := True\<rparr> else st1)
      in if fname = js ''package-lock.json'' then st2\<lparr>pkgLockModified := True\<rparr> else st2)"

definition analyzeFiles :: "env \<Rightarrow> analysis \<Rightarrow> changed_file list \<Rightarrow> analysis" where
  "analyzeFiles api st files = foldl (analyzeFile api) st files"

text \<open>What one file adds to the issues, to the todo entries and to the log.\<close>

definition contentIssues :: "jsstring \<Rightarrow> jsstring \<Rightarrow> jsstring list" where
  "contentIssues fname content =
     (if countLines content > 200 then [locIssue fname (countLines content)] else []) @
     (if countMethods content > 8 then [nomIssue fname (countMethods content)] else [])"

definition fileIssues :: "env \<Rightarrow> changed_file \<Rightarrow> jsstring list" where
  "fileIssues api f =
     (if eligible f
      then (case getContent api (filename f) of
              Inr (Some b64) \<Rightarrow> contentIssues (filename f) (decodeBase64 api b64)
            | _ \<Rightarrow> [])
      else [])"

definition fileTodos :: "env \<Rightarrow> changed_file \<Rightarrow> jsstring list" where
  "fileTodos api f =
     (if eligible f
      then (case getContent api (filename f) of
              Inr (Some b64) \<Rightarrow>
                map (todoComment (filename f)) (findTodos (decodeBase64 api b64))
            | _ \<Rightarrow> [])
      else [])"

definition fileLog :: "env \<Rightarrow> changed_file \<Rightarrow> log_entry list" where
  "fileLog api f =
     (if eligible f
      then (case getContent api (filename f) of
              Inl e \<Rightarrow> [LogError (js ''Error analyzing '' @ filename f @ js '':'') (Some e)]
            | Inr None \<Rightarrow>
                [LogError (js ''Error analyzing '' @ filename f @ js '':'') (Some InvalidArgType)]
            | Inr (Some b64) \<Rightarrow> [LogInfo (js ''Analyzing '' @ filename f @ js '':'')])
      else [])"

subsection \<open>The comment body\<close>

text \<open>
  Lines 150 to 168. The robot is the surrogate pair D83E DD16, the warning sign 26A0 FE0F,
  the check mark 2705, the memo D83D DCDD.
  \<^verbatim>\<open>
  let body = '## (robot) PR Maintainability Check\n\n';
  if (issues.length > 0) {
    body += '### (warning) Issues Detected:\n' + issues.join('\n') + '\n\n';
  } else {
    body += '(check) No major maintainability issues found.\n\n';
  }
  if (pkgJsonModified && !pkgLockModified) {
    body +=
      '(warning) `package.json` was modified but `package-lock.json` was not. Ensure lockfile is up to date!\n\n';
  }
  if (todoComments.length > 0) {
    body +=
      '### (memo) TODO / FIXME Found:\n' +
      todoComments.join('\n') +
      '\nPlease address these before merging.\n';
  }
  \<close>
\<close>

definition titleLine :: jsstring where
  "titleLine = js ''## '' @ [55358, 56598] @ js '' PR Maintainability Check\<newline>\<newline>''"

definition issuesHeading :: jsstring where
  "issuesHeading = js ''### '' @ [9888, 65039] @ js '' Issues Detected:\<newline>''"

definition noIssuesLine :: jsstring where
  "noIssuesLine =
     [9989] @ js '' No major maintainability issues found.\<newline>\<newline>''"

definition lockfileWarning :: jsstring where
  "lockfileWarning =
     [9888, 65039] @
     js '' `package.json` was modified but `package-lock.json` was not. Ensure lockfile is up to date!\<newline>\<newline>''"

definition todoHeading :: jsstring where
  "todoHeading = js ''### '' @ [55357, 56541] @ js '' TODO / FIXME Found:\<newline>''"

definition todoReminder :: jsstring where
  "todoReminder = js ''\<newline>Please address these before merging.\<newline>''"

text \<open>What the first and the last \<^verbatim>\<open>if\<close> append to the body.\<close>

definition issuesSection :: "jsstring list \<Rightarrow> jsstring" where
  "issuesSection xs =
     (if length xs > 0
      then issuesHeading @ join (js ''\<newline>'') xs @ js ''\<newline>\<newline>''
      else noIssuesLine)"

definition todoSection :: "jsstring list \<Rightarrow> jsstring" where
  "todoSection ts =
     (if length ts > 0
      then todoHeading @ join (js ''\<newline>'') ts @ todoReminder
      else [])"

definition compose :: "analysis \<Rightarrow> jsstring" where
  "compose st =
     (let body = titleLine;
          body = body @ issuesSection (issues st);
          body = (if pkgJsonModified st \<and> \<not> pkgLockModified st
                  then body @ lockfileWarning else body)
      in body @ todoSection (todoComments st))"

text \<open>\<^verbatim>\<open>s.includes(p)\<close>: \<open>p\<close> occurs in \<open>s\<close>.\<close>

fun stringIncludes :: "jsstring \<Rightarrow> jsstring \<Rightarrow> bool" where
  "stringIncludes [] p = (p = [])"
| "stringIncludes (c # cs) p = (startsWith (c # cs) p \<or> stringIncludes cs p)"

subsection \<open>The handler\<close>

text \<open>
  What one run of the handler leaves behind: the error it threw, if any, the comment it
  posted, if any, and its log.
\<close>

record run =
  thrown :: "error option"
  posted :: "jsstring option"
  runLog :: "log_entry list"

text \<open>
  The payload of the event, as far as the handler reads it:
  \<^verbatim>\<open>installation?.id\<close> (absent, or a number that is falsy when zero),
  \<^verbatim>\<open>pull_request.number\<close> and \<^verbatim>\<open>repository.full_name\<close>.
\<close>

record payload =
  installationId :: "nat option"
  prNumber :: nat
  repoFullName :: jsstring

definition missingInstallation :: "payload \<Rightarrow> bool" where
  "missingInstallation p = (case installationId p of None \<Rightarrow> True | Some n \<Rightarrow> n = 0)"

text \<open>
  Lines 47 to 188. Without an installation the handler logs and returns. Otherwise an
  error of \<^verbatim>\<open>listFiles\<close> or of \<^verbatim>\<open>createComment\<close> reaches the outer \<^verbatim>\<open>catch\<close>, which
  logs it and throws it again; the errors of one file stay in the loop.
\<close>

definition handlePullRequest :: "env \<Rightarrow> payload \<Rightarrow> run" where
  "handlePullRequest api p =
     (let l0 = [LogInfo (js ''Received PR event:'')] in
      if missingInstallation p
      then \<lparr>thrown = None, posted = None,
            runLog = l0 @ [LogError ([10060] @ js '' Missing installation ID in PR event payload'')
                                    None]\<rparr>
      else
        (let l1 = l0 @ [LogInfo ([55357, 56589] @ js '' Analyzing PR #'' @
                                 numberToString (prNumber p) @ js '' in '' @ repoFullName p)]
         in case listFiles api of
              Inl e \<Rightarrow>
                \<lparr>thrown = Some e, posted = None,
                 runLog = l1 @ [LogError ([10060] @ js '' Error processing PR:'') (Some e)]\<rparr>
            | Inr files \<Rightarrow>
                (let st = analyzeFiles api (initial l1) files;
                     body = compose st
                 in case createComment api body of
                      Inl e \<Rightarrow>
                        \<lparr>thrown = Some e, posted = None,
                         runLog = logged st @
                           [LogError ([10060] @ js '' Error processing PR:'') (Some e)]\<rparr>
                    | Inr _ \<Rightarrow>
                        \<lparr>thrown = None, posted = Some body,
                         runLog = logged st @
                           [LogInfo ([9989] @ js '' Successfully commented on PR #'' @
                                     numberToString (prNumber p))]\<rparr>)))"

subsection \<open>Example inputs\<close>

text \<open>
  The list of changed files of the aggregation example, and an installation whose
  content call always fails.
\<close>

definition exampleFiles :: "changed_file list" where
  "exampleFiles =
     [\<lparr>filename = js ''a.js'', patch = Some (js ''@@ -1 +1 @@'')\<rparr>,
      \<lparr>filename = js ''b.png'', patch = Some (js ''@@ -1 +1 @@'')\<rparr>,
      \<lparr>filename = js ''package.json'', patch = Some (js ''@@ -1 +1 @@'')\<rparr>,
      \<lparr>filename = js ''package-lock.json'', patch = None\<rparr>]"

definition failingApi :: env where
  "failingApi =
     \<lparr>listFiles = Inr exampleFiles,
      getContent = (\<lambda>path. Inl (RequestError (js ''Not Found''))),
      decodeBase64 = (\<lambda>b. b),
      createComment = (\<lambda>body. Inr ())\<rparr>"

text \<open>
  Three eligible files, and an installation whose content call fails for the second of
  them; a payload with an installation.
\<close>

definition threeFiles :: "changed_file list" where
  "threeFiles =
     [\<lparr>filename = js ''one.js'', patch = Some (js ''@@ -1 +1 @@'')\<rparr>,
      \<lparr>filename = js ''two.ts'', patch = Some (js ''@@ -1 +1 @@'')\<rparr>,
      \<lparr>filename = js ''three.tsx'', patch = Some (js ''@@ -1 +1 @@'')\<rparr>]"

definition flakyApi :: env where
  "flakyApi =
     \<lparr>listFiles = Inr threeFiles,
      getContent = (\<lambda>path. if path = js ''two.ts'' then Inl (RequestError (js ''Not Found''))
                            else Inr (Some (js ''// TODO: x''))),
      decodeBase64 = (\<lambda>b. b),
      createComment = (\<lambda>body. Inr ())\<rparr>"

definition examplePayload :: payload where
  "examplePayload = \<lparr>installationId = Some 7, prNumber = 12, repoFullName = js ''o/r''\<rparr>"

section \<open>Notions used to state the properties\<close>

text \<open>
  \<open>skipWhile P s i\<close> is the first index from \<open>i\<close> on whose code unit does not satisfy
  \<open>P\<close> (the length of \<open>s\<close> when there is none); \<open>firstEnd\<close> is the end of the match that
  the engine reports at a start index; \<open>litAt\<close> says that a literal is read at an index.
\<close>

definition skipWhile :: "(code_unit \<Rightarrow> bool) \<Rightarrow> jsstring \<Rightarrow> nat \<Rightarrow> nat" where
  "skipWhile P s i = i + length (takeWhile P (drop i s))"

definition firstEnd :: "flags \<Rightarrow> regex \<Rightarrow> jsstring \<Rightarrow> nat \<Rightarrow> nat option" where
  "firstEnd fl r s i = (case ends fl r s i of [] \<Rightarrow> None | e # _ \<Rightarrow> Some e)"

definition litAt :: "flags \<Rightarrow> string \<Rightarrow> jsstring \<Rightarrow> nat \<Rightarrow> bool" where
  "litAt fl cs s i =
     list_all2 (\<lambda>c x. atom_matches fl (Lit (of_char c)) x) cs (take (length cs) (drop i s))"

text \<open>
  The parts of the todo expression, read off from it: a comment leader (\<^verbatim>\<open>//\<close>, \<^verbatim>\<open>#\<close>
  or \<^verbatim>\<open>*\<close>), white space (\<^verbatim>\<open>\s*\<close>, line terminators included), the word TODO or FIXME in
  any case, a colon or none, white space again and the text up to the end of the line. Each
  function gives the index after the part it reads, and \<open>None\<close> when the part is not
  there; \<open>todoFragmentEnd\<close> is proved below to be the end of the match of the engine.
\<close>

definition leaderEnd :: "jsstring \<Rightarrow> nat \<Rightarrow> nat option" where
  "leaderEnd s i =
     (if startsWith (drop i s) (js ''//'') then Some (i + 2)
      else if startsWith (drop i s) (js ''#'') \<or> startsWith (drop i s) (js ''*'')
      then Some (i + 1)
      else None)"

definition keywordEnd :: "jsstring \<Rightarrow> nat \<Rightarrow> nat option" where
  "keywordEnd s i =
     (if map canonicalize (take 4 (drop i s)) = js ''TODO'' then Some (i + 4)
      else if map canonicalize (take 5 (drop i s)) = js ''FIXME'' then Some (i + 5)
      else None)"

definition colonEnd :: "jsstring \<Rightarrow> nat \<Rightarrow> nat" where
  "colonEnd s i = (if startsWith (drop i s) (js '':'') then i + 1 else i)"

definition todoFragmentEnd :: "jsstring \<Rightarrow> nat \<Rightarrow> nat option" where
  "todoFragmentEnd s i =
     (case leaderEnd s i of
        None \<Rightarrow> None
      | Some j \<Rightarrow>
          (case keywordEnd s (skipWhile isWhiteSpace s j) of
             None \<Rightarrow> None
           | Some k \<Rightarrow>
               Some (skipWhile (\<lambda>c. \<not> isLineTerminator c) s
                      (skipWhile isWhiteSpace s (colonEnd s k)))))"

text \<open>What follows the colon in the todo expression: \<^verbatim>\<open>\s*(.*)\<close>.\<close>

definition todoTail :: regex where
  "todoTail = Seq (Star (Atom Space)) (Star (Atom Dot))"

text \<open>
  The matches of the todo expression in a text, from an index on, as a scan from left to
  right: a match is taken where one begins, and the scan goes on behind it. A match is not
  empty, so the scan ends. It is proved below that these are the matches of the engine.
\<close>

lemma skipWhile_ge: "i \<le> skipWhile P s i"
  by (simp add: skipWhile_def)

lemma leaderEnd_gt: "leaderEnd s i = Some j \<Longrightarrow> i < j"
  by (auto simp: leaderEnd_def split: if_splits)

lemma keywordEnd_gt: "keywordEnd s k = Some q \<Longrightarrow> k < q"
  by (auto simp: keywordEnd_def split: if_splits)

lemma colonEnd_ge: "q \<le> colonEnd s q"
  by (simp add: colonEnd_def)

lemma todoFragmentEnd_gt:
  assumes "todoFragmentEnd s i = Some e"
  shows "i < e"
proof -
  from assms obtain j q where j: "leaderEnd s i = Some j"
    and q: "keywordEnd s (skipWhile isWhiteSpace s j) = Some q"
    and e: "e = skipWhile (\<lambda>c. \<not> isLineTerminator c) s (skipWhile isWhiteSpace s (colonEnd s q))"
    by (auto simp: todoFragmentEnd_def split: option.splits)
  have "i < j" using j by (rule leaderEnd_gt)
  also have "j \<le> skipWhile isWhiteSpace s j" by (rule skipWhile_ge)
  also have "\<dots> < q" using q by (rule keywordEnd_gt)
  also have "q \<le> colonEnd s q" by (rule colonEnd_ge)
  also have "\<dots> \<le> skipWhile isWhiteSpace s (colonEnd s q)" by (rule skipWhile_ge)
  also have "\<dots> \<le> e" unfolding e by (rule skipWhile_ge)
  finally show ?thesis .
qed

function todoFragments :: "jsstring \<Rightarrow> nat \<Rightarrow> (nat \<times> nat) list" where
  "todoFragments s i =
     (if length s < i then []
      else (case todoFragmentEnd s i of
              None \<Rightarrow> todoFragments s (Suc i)
            | Some e \<Rightarrow> (i, e) # todoFragments s e))"
  by pat_completeness auto
termination
proof (relation "measure (\<lambda>(s, i). Suc (length s) - i)")
  fix s :: jsstring and i e :: nat
  assume "\<not> length s < i" and "todoFragmentEnd s i = Some e"
  then have "i < e" and "i \<le> length s" by (simp_all add: todoFragmentEnd_gt)
  then show "((s, e), (s, i)) \<in> measure (\<lambda>(s, i). Suc (length s) - i)" by auto
qed auto

declare todoFragments.simps [simp del]

text \<open>
  A counted line, in the words of the specification: after trimming, the line is not empty
  and does not start with \<^verbatim>\<open>//\<close>, \<^verbatim>\<open>/*\<close>, \<^verbatim>\<open>*\<close>, \<^verbatim>\<open>import \<close> or \<^verbatim>\<open>export \<close>.
\<close>

definition countedLine :: "jsstring \<Rightarrow> bool" where
  "countedLine l =
     (trim l \<noteq> [] \<and>
      \<not> prefix (js ''//'') (trim l) \<and> \<not> prefix (js ''/*'') (trim l) \<and>
      \<not> prefix (js ''*'') (trim l) \<and> \<not> prefix (js ''import '') (trim l) \<and>
      \<not> prefix (js ''export '') (trim l))"

text \<open>A span of indices moved to the right.\<close>

definition shiftSpan :: "nat \<Rightarrow> nat \<times> nat \<Rightarrow> nat \<times> nat" where
  "shiftSpan n x = (n + fst x, n + snd x)"

text \<open>
  A text with \<open>n\<close> lines before it that hold a semicolon each; a text of five lines with
  nine matches of the method patterns; a file of 250 counted lines made of the two, and an
  installation that serves it.
\<close>

fun padded :: "nat \<Rightarrow> jsstring \<Rightarrow> jsstring" where
  "padded 0 P = P"
| "padded (Suc n) P = 59 # 10 # padded n P"

definition fiveArrows :: jsstring where
  "fiveArrows =
     js ''let a=()=>\<newline>let a=()=>\<newline>let a=()=>\<newline>let a=()=>\<newline>a=()=>''"

definition bigFile :: changed_file where
  "bigFile = \<lparr>filename = js ''big.js'', patch = Some (js ''@@ -1 +1 @@'')\<rparr>"

definition bigApi :: env where
  "bigApi =
     \<lparr>listFiles = Inr [bigFile],
      getContent = (\<lambda>path. Inr (Some (padded 245 fiveArrows))),
      decodeBase64 = (\<lambda>b. b),
      createComment = (\<lambda>body. Inr ())\<rparr>"

text \<open>An installation in which every file reads \<^verbatim>\<open>// TODO: x\<close>.\<close>

definition todoApi :: env where
  "todoApi =
     \<lparr>listFiles = Inr exampleFiles,
      getContent = (\<lambda>path. Inr (Some (js ''// TODO: x''))),
      decodeBase64 = (\<lambda>b. b),
      createComment = (\<lambda>body. Inr ())\<rparr>"

section \<open>The extractors with the failures of JavaScript written out\<close>

text \<open>
  The operations the extractors use can fail in two ways: reading \<^verbatim>\<open>.length\<close> of
  \<^verbatim>\<open>null\<close> throws a \<^verbatim>\<open>TypeError\<close>, and so does \<^verbatim>\<open>matchAll\<close> with an expression that
  has no \<^verbatim>\<open>g\<close> flag. Here the three extractors are written once more with these
  failures as values: \<open>Inl\<close> is the error thrown, \<open>Inr\<close> the value returned.
  \<open>lengthOf\<close> is \<^verbatim>\<open>x.length\<close> for an \<open>x\<close> that is an array or \<^verbatim>\<open>null\<close>; \<open>orArray\<close> is
  \<^verbatim>\<open>x || d\<close> for such an \<open>x\<close> (an array is truthy, also when it is empty);
  \<open>matchAllChecked\<close> is \<^verbatim>\<open>s.matchAll(re)\<close>, its first argument telling whether \<open>re\<close> has
  the \<^verbatim>\<open>g\<close> flag.
\<close>

datatype js_error = TypeError

definition lengthOf :: "'a list option \<Rightarrow> js_error + nat" where
  "lengthOf x = (case x of None \<Rightarrow> Inl TypeError | Some xs \<Rightarrow> Inr (length xs))"

definition orArray :: "'a list option \<Rightarrow> 'a list \<Rightarrow> 'a list option" where
  "orArray x d = (case x of None \<Rightarrow> Some d | Some xs \<Rightarrow> Some xs)"

definition matchAllChecked ::
  "bool \<Rightarrow> flags \<Rightarrow> regex \<Rightarrow> jsstring \<Rightarrow> js_error + (nat \<times> nat) list" where
  "matchAllChecked g fl r s = (if g then Inr (matchAll fl r s) else Inl TypeError)"

text \<open>\<^verbatim>\<open>content.split('\n').filter(...).length\<close>\<close>

definition countLinesChecked :: "jsstring \<Rightarrow> js_error + nat" where
  "countLinesChecked content = lengthOf (Some (filter lineFilter (split_nl content)))"

text \<open>
  \<^verbatim>\<open>
  const functionMatches = (content.match(functionRegex) || []).length;
  const arrowMatches = (content.match(arrowFunctionRegex) || []).length;
  const regularMatches = (content.match(regularFunctionRegex) || []).length;
  return functionMatches + arrowMatches + regularMatches;
  \<close>
\<close>

definition countMethodsChecked :: "jsstring \<Rightarrow> js_error + nat" where
  "countMethodsChecked content =
     (case lengthOf (orArray (stringMatch gm functionRegex content) []) of
        Inl e \<Rightarrow> Inl e
      | Inr functionMatches \<Rightarrow>
          (case lengthOf (orArray (stringMatch gm arrowFunctionRegex content) []) of
             Inl e \<Rightarrow> Inl e
           | Inr arrowMatches \<Rightarrow>
               (case lengthOf (orArray (stringMatch gm regularFunctionRegex content) []) of
                  Inl e \<Rightarrow> Inl e
                | Inr regularMatches \<Rightarrow>
                    Inr (functionMatches + arrowMatches + regularMatches))))"

text \<open>
  \<^verbatim>\<open>
  const regex = /(\/\/|#|\*)\s*(TODO|FIXME):?\s*(.*)/gi;
  const matches = content.matchAll(regex);
  return Array.from(matches, (m) => m[0].trim());
  \<close>
\<close>

definition findTodosChecked :: "jsstring \<Rightarrow> js_error + jsstring list" where
  "findTodosChecked content =
     (case matchAllChecked True gi todoRegex content of
        Inl e \<Rightarrow> Inl e
      | Inr matches \<Rightarrow> Inr (map (\<lambda>(a, e). trim (substring content a e)) matches))"

section \<open>The todo fragments in the words of the specification\<close>









section \<open>The comment composer\<close>

text \<open>\<open>stringIncludes\<close> is the sublist relation of lists.\<close>

lemma includes_sublist: "stringIncludes s p = sublist p s"
proof (induction s)
  case Nil
  then show ?case by (auto simp: startsWith_def)
next
  case (Cons c cs)
  have "startsWith (c # cs) p = prefix p (c # cs)"
    unfolding startsWith_def by (metis append_eq_conv_conj prefix_def take_is_prefix)
  then show ?case using Cons by (auto simp: sublist_Cons_right)
qed

lemmas body_defs = compose_def titleLine_def issuesHeading_def noIssuesLine_def
  lockfileWarning_def todoHeading_def todoReminder_def issuesSection_def todoSection_def

text \<open>
  Claim C7. With no issue, no todo entry and neither package file changed, the body is the
  title followed by the line that affirms that there are no issues. That line occurs in
  it; the issues heading, any \<^verbatim>\<open>###\<close> heading, the lockfile warning, any mention of a
  package file, the TODO heading and the word TODO do not.
\<close>

theorem compose_nothing_found:
  "compose \<lparr>issues = [], todoComments = [], pkgJsonModified = False,
            pkgLockModified = False, logged = l\<rparr> = titleLine @ noIssuesLine
   \<and> stringIncludes (titleLine @ noIssuesLine) noIssuesLine
   \<and> \<not> stringIncludes (titleLine @ noIssuesLine) issuesHeading
   \<and> \<not> stringIncludes (titleLine @ noIssuesLine) (js ''###'')
   \<and> \<not> stringIncludes (titleLine @ noIssuesLine) lockfileWarning
   \<and> \<not> stringIncludes (titleLine @ noIssuesLine) (js ''package'')
   \<and> \<not> stringIncludes (titleLine @ noIssuesLine) todoHeading
   \<and> \<not> stringIncludes (titleLine @ noIssuesLine) (js ''TODO'')"
  by (simp add: body_defs js_def startsWith_def)

text \<open>
  Claim C6. The composer appends the lockfile warning exactly when the manifest changed
  and the lockfile did not: in that case the body is the title, the issues section, the
  warning and the TODO section; in the three other cases (only the lockfile changed, both
  changed, neither changed) it is the title, the issues section and the TODO section,
  with nothing in between. The sections around the warning do not read the two flags.
\<close>

theorem lockfile_warning_iff:
  "compose (st\<lparr>pkgJsonModified := True, pkgLockModified := False\<rparr>) =
     titleLine @ issuesSection (issues st) @ lockfileWarning @ todoSection (todoComments st)
   \<and> compose (st\<lparr>pkgJsonModified := False, pkgLockModified := True\<rparr>) =
     titleLine @ issuesSection (issues st) @ todoSection (todoComments st)
   \<and> compose (st\<lparr>pkgJsonModified := True, pkgLockModified := True\<rparr>) =
     titleLine @ issuesSection (issues st) @ todoSection (todoComments st)
   \<and> compose (st\<lparr>pkgJsonModified := False, pkgLockModified := False\<rparr>) =
     titleLine @ issuesSection (issues st) @ todoSection (todoComments st)
   \<and> lockfileWarning \<noteq> []"
  by (simp add: compose_def lockfileWarning_def)

section \<open>The aggregation over the changed files\<close>

lemma analyzeContent_fields:
  "pkgJsonModified (analyzeContent fname c st) = pkgJsonModified st"
  "pkgLockModified (analyzeContent fname c st) = pkgLockModified st"
  by (simp_all add: analyzeContent_def Let_def)

lemma analyzeFailed_fields:
  "pkgJsonModified (analyzeFailed fname e st) = pkgJsonModified st"
  "pkgLockModified (analyzeFailed fname e st) = pkgLockModified st"
  "issues (analyzeFailed fname e st) = issues st"
  "todoComments (analyzeFailed fname e st) = todoComments st"
  by (simp_all add: analyzeFailed_def)

lemma analyzeFile_pkgJson:
  "pkgJsonModified (analyzeFile api st f) =
     (pkgJsonModified st \<or> filename f = js ''package.json'')"
  by (auto simp: analyzeFile_def Let_def analyzeContent_fields analyzeFailed_fields
      split: sum.splits option.splits)

lemma analyzeFile_pkgLock:
  "pkgLockModified (analyzeFile api st f) =
     (pkgLockModified st \<or> filename f = js ''package-lock.json'')"
  by (auto simp: analyzeFile_def Let_def analyzeContent_fields analyzeFailed_fields
      split: sum.splits option.splits)

lemma analyzeFiles_pkgJson:
  "pkgJsonModified (analyzeFiles api st files) =
     (pkgJsonModified st \<or> js ''package.json'' \<in> set (map filename files))"
  unfolding analyzeFiles_def
  by (induction files arbitrary: st) (auto simp: analyzeFile_pkgJson)

lemma analyzeFiles_pkgLock:
  "pkgLockModified (analyzeFiles api st files) =
     (pkgLockModified st \<or> js ''package-lock.json'' \<in> set (map filename files))"
  unfolding analyzeFiles_def
  by (induction files arbitrary: st) (auto simp: analyzeFile_pkgLock)

lemma analyzeFile_not_eligible:
  "\<not> eligible f \<Longrightarrow>
   analyzeFile api st f =
     st\<lparr>pkgJsonModified := pkgJsonModified st \<or> filename f = js ''package.json'',
        pkgLockModified := pkgLockModified st \<or> filename f = js ''package-lock.json''\<rparr>"
  by (simp add: analyzeFile_def Let_def)

lemma package_files_not_eligible:
  "filename f = js ''package.json'' \<or> filename f = js ''package-lock.json'' \<Longrightarrow>
   \<not> eligible f"
  by (auto simp: eligible_def endsWith_def js_def)

lemma analyzeFile_eligible:
  "eligible f \<Longrightarrow>
   analyzeFile api st f =
     (case getContent api (filename f) of
        Inl e \<Rightarrow> analyzeFailed (filename f) e st
      | Inr None \<Rightarrow> analyzeFailed (filename f) InvalidArgType st
      | Inr (Some b64) \<Rightarrow> analyzeContent (filename f) (decodeBase64 api b64) st)"
  using package_files_not_eligible [of f]
  by (auto simp: analyzeFile_def Let_def)

text \<open>
  Claim C1 as stated fails: on that list the lockfile flag is not false, since the name
  \<^verbatim>\<open>package-lock.json\<close> is in it.
\<close>

theorem example_lockfile_counterexample:
  "\<not> (pkgJsonModified (analyzeFiles failingApi (initial []) exampleFiles) = True \<and>
      pkgLockModified (analyzeFiles failingApi (initial []) exampleFiles) = False)"
  by (simp add: analyzeFiles_pkgLock exampleFiles_def)


lemma analyzeContent_issues:
  "issues (analyzeContent fname c st) = issues st @ contentIssues fname c"
  by (simp add: analyzeContent_def contentIssues_def Let_def)

lemma analyzeContent_todos:
  "todoComments (analyzeContent fname c st) =
     todoComments st @ map (todoComment fname) (findTodos c)"
  by (simp add: analyzeContent_def Let_def)

lemma analyzeContent_logged:
  "logged (analyzeContent fname c st) =
     logged st @ [LogInfo (js ''Analyzing '' @ fname @ js '':'')]"
  by (simp add: analyzeContent_def Let_def)

lemma analyzeFile_issues: "issues (analyzeFile api st f) = issues st @ fileIssues api f"
proof (cases "eligible f")
  case True
  then show ?thesis
    by (cases "getContent api (filename f)")
      (simp_all add: analyzeFile_eligible fileIssues_def analyzeFailed_fields
        analyzeContent_issues split: option.split)
next
  case False
  then show ?thesis by (simp add: analyzeFile_not_eligible fileIssues_def)
qed

lemma analyzeFile_todos:
  "todoComments (analyzeFile api st f) = todoComments st @ fileTodos api f"
proof (cases "eligible f")
  case True
  then show ?thesis
    by (cases "getContent api (filename f)")
      (simp_all add: analyzeFile_eligible fileTodos_def analyzeFailed_fields
        analyzeContent_todos split: option.split)
next
  case False
  then show ?thesis by (simp add: analyzeFile_not_eligible fileTodos_def)
qed

lemma analyzeFile_logged: "logged (analyzeFile api st f) = logged st @ fileLog api f"
proof (cases "eligible f")
  case True
  then show ?thesis
    by (cases "getContent api (filename f)")
      (simp_all add: analyzeFile_eligible fileLog_def analyzeFailed_def
        analyzeContent_logged split: option.split)
next
  case False
  then show ?thesis by (simp add: analyzeFile_not_eligible fileLog_def)
qed

lemma analyzeFiles_issues:
  "issues (analyzeFiles api st fs) = issues st @ concat (map (fileIssues api) fs)"
  unfolding analyzeFiles_def
  by (induction fs arbitrary: st) (simp_all add: analyzeFile_issues)

lemma analyzeFiles_todos:
  "todoComments (analyzeFiles api st fs) = todoComments st @ concat (map (fileTodos api) fs)"
  unfolding analyzeFiles_def
  by (induction fs arbitrary: st) (simp_all add: analyzeFile_todos)

lemma analyzeFiles_logged:
  "logged (analyzeFiles api st fs) = logged st @ concat (map (fileLog api) fs)"
  unfolding analyzeFiles_def
  by (induction fs arbitrary: st) (simp_all add: analyzeFile_logged)

lemma compose_fields:
  "compose st =
     titleLine @ issuesSection (issues st) @
     (if pkgJsonModified st \<and> \<not> pkgLockModified st then lockfileWarning else []) @
     todoSection (todoComments st)"
  by (simp add: compose_def Let_def)

section \<open>The matcher on the shapes the source uses\<close>

lemma skipWhile_step:
  "i < length s \<Longrightarrow> P (s ! i) \<Longrightarrow> skipWhile P s i = skipWhile P s (Suc i)"
  by (simp add: skipWhile_def Cons_nth_drop_Suc [symmetric])

lemma skipWhile_stop:
  "i < length s \<Longrightarrow> \<not> P (s ! i) \<Longrightarrow> skipWhile P s i = i"
  by (simp add: skipWhile_def Cons_nth_drop_Suc [symmetric])

lemma skipWhile_end: "length s \<le> i \<Longrightarrow> skipWhile P s i = i"
  by (simp add: skipWhile_def)

lemma skipWhile_le: "i \<le> length s \<Longrightarrow> skipWhile P s i \<le> length s"
proof -
  assume "i \<le> length s"
  have "length (takeWhile P (drop i s)) \<le> length (drop i s)"
    by (rule length_takeWhile_le)
  with \<open>i \<le> length s\<close> show ?thesis by (simp add: skipWhile_def)
qed

lemma skipWhile_all:
  assumes "i \<le> p" and "p < skipWhile P s i"
  shows "p < length s \<and> P (s ! p)"
proof -
  let ?t = "takeWhile P (drop i s)"
  from assms have lt: "p - i < length ?t" by (simp add: skipWhile_def)
  have "length ?t \<le> length (drop i s)" by (rule length_takeWhile_le)
  with lt have pl: "p < length s" using assms(1) by simp
  from lt have "?t ! (p - i) \<in> set ?t" by (rule nth_mem)
  then have "P (?t ! (p - i))" by (rule set_takeWhileD [THEN conjunct2])
  moreover from lt have "?t ! (p - i) = drop i s ! (p - i)" by (rule takeWhile_nth)
  moreover have "drop i s ! (p - i) = s ! p" using assms(1) pl by simp
  ultimately show ?thesis using pl by simp
qed


lemma ends_star_atom:
  "ends fl (Star (Atom a)) s i = rev [i ..< Suc (skipWhile (atom_matches fl a) s i)]"
proof (induction "length s - i" arbitrary: i)
  case 0
  then have "length s \<le> i" by simp
  then show ?case by (simp add: ends.simps(6) [of fl "Atom a" s i] skipWhile_end)
next
  case (Suc n)
  then have lt: "i < length s" by simp
  show ?case
  proof (cases "atom_matches fl a (s ! i)")
    case True
    have "n = length s - Suc i" using Suc.hyps(2) by simp
    then have ih: "ends fl (Star (Atom a)) s (Suc i) =
        rev [Suc i ..< Suc (skipWhile (atom_matches fl a) s (Suc i))]"
      by (rule Suc.hyps(1))
    have "i < Suc (skipWhile (atom_matches fl a) s (Suc i))"
      using skipWhile_ge [of "Suc i" "atom_matches fl a" s] by simp
    then have "[i ..< Suc (skipWhile (atom_matches fl a) s (Suc i))] =
        i # [Suc i ..< Suc (skipWhile (atom_matches fl a) s (Suc i))]"
      by (rule upt_conv_Cons)
    with True lt ih show ?thesis
      by (simp add: ends.simps(6) [of fl "Atom a" s i] skipWhile_step)
  next
    case False
    with lt show ?thesis
      by (simp add: ends.simps(6) [of fl "Atom a" s i] skipWhile_stop)
  qed
qed


lemma list_all2_map_eq: "list_all2 (\<lambda>c x. f c = g x) cs xs = (map g xs = map f cs)"
proof (induction cs arbitrary: xs)
  case Nil
  show ?case by auto
next
  case (Cons c cs)
  show ?case by (cases xs) (auto simp: Cons.IH)
qed

lemma take_Suc_drop:
  "take (Suc n) (drop i s) = (if i < length s then s ! i # take n (drop (Suc i) s) else [])"
  by (simp add: Cons_nth_drop_Suc [symmetric])


lemma ends_Seq_Atom:
  "ends fl (Seq (Atom a) r) s i =
     (if i < length s \<and> atom_matches fl a (s ! i) then ends fl r s (Suc i) else [])"
  by auto

lemma litAt_Cons:
  "litAt fl (c # cs) s i =
     (i < length s \<and> atom_matches fl (Lit (of_char c)) (s ! i) \<and> litAt fl cs s (Suc i))"
  by (simp add: litAt_def take_Suc_drop del: atom_matches.simps)

lemma litAt_Nil: "litAt fl [] s i"
  by (simp add: litAt_def)

lemma ends_lit:
  "cs \<noteq> [] \<Longrightarrow> ends fl (lit cs) s i = (if litAt fl cs s i then [i + length cs] else [])"
proof (induction cs arbitrary: i rule: lit.induct)
  case 1
  then show ?case by simp
next
  case (2 c)
  show ?case by (simp add: litAt_Cons litAt_Nil del: atom_matches.simps)
next
  case (3 c c' cs)
  have ih: "ends fl (lit (c' # cs)) s (Suc i) =
      (if litAt fl (c' # cs) s (Suc i) then [Suc i + length (c' # cs)] else [])"
    by (rule "3.IH") simp
  have "ends fl (lit (c # c' # cs)) s i =
      (if i < length s \<and> atom_matches fl (Lit (of_char c)) (s ! i)
       then ends fl (lit (c' # cs)) s (Suc i) else [])"
    by (simp only: lit.simps ends_Seq_Atom)
  also have "\<dots> = (if litAt fl (c # c' # cs) s i then [i + length (c # c' # cs)] else [])"
    unfolding ih litAt_Cons [of fl c "c' # cs" s i] by simp
  finally show ?case .
qed



lemma litAt_gi:
  "litAt gi cs s i =
     (map canonicalize (take (length cs) (drop i s)) = map (\<lambda>c. canonicalize (of_char c)) cs)"
proof -
  have "(\<lambda>c x. atom_matches gi (Lit (of_char c)) x) =
      (\<lambda>c x. canonicalize (of_char c) = canonicalize x)"
    by (simp add: gi_def fun_eq_iff)
  then show ?thesis
    unfolding litAt_def by (simp only: list_all2_map_eq)
qed

lemma canonicalize_eq_plain:
  "\<not> (65 \<le> c \<and> c \<le> 90) \<Longrightarrow> (canonicalize x = c) = (x = c \<and> \<not> (97 \<le> c \<and> c \<le> 122))"
  by (auto simp: canonicalize_def)

lemma litAt_slashes: "litAt gi ''//'' s i = startsWith (drop i s) (js ''//'')"
  by (auto simp: litAt_gi startsWith_def js_def canonicalize_def take_Suc_drop numeral_2_eq_2
      split: if_splits)

lemma litAt_hash: "litAt gi ''#'' s i = startsWith (drop i s) (js ''#'')"
  by (auto simp: litAt_gi startsWith_def js_def canonicalize_def take_Suc_drop
      split: if_splits)

lemma litAt_star: "litAt gi ''*'' s i = startsWith (drop i s) (js ''*'')"
  by (auto simp: litAt_gi startsWith_def js_def canonicalize_def take_Suc_drop
      split: if_splits)

lemma litAt_colon: "litAt gi '':'' s i = startsWith (drop i s) (js '':'')"
  by (auto simp: litAt_gi startsWith_def js_def canonicalize_def take_Suc_drop
      split: if_splits)

lemma litAt_TODO: "litAt gi ''TODO'' s i = (map canonicalize (take 4 (drop i s)) = js ''TODO'')"
proof -
  have e: "Suc (Suc (Suc (Suc 0))) = 4" by simp
  show ?thesis by (simp add: litAt_gi js_def canonicalize_def e)
qed

lemma litAt_FIXME: "litAt gi ''FIXME'' s i = (map canonicalize (take 5 (drop i s)) = js ''FIXME'')"
proof -
  have e: "Suc (Suc (Suc (Suc (Suc 0)))) = 5" by simp
  show ?thesis by (simp add: litAt_gi js_def canonicalize_def e)
qed



lemma startsWith_hd:
  "startsWith xs (js (c # cs)) \<Longrightarrow> xs \<noteq> [] \<and> hd xs = of_char c"
  by (cases xs) (simp_all add: startsWith_def js_def)

lemma ends_leader:
  "ends gi (Alt (lit ''//'') (Alt (lit ''#'') (lit ''*''))) s i =
     (case leaderEnd s i of None \<Rightarrow> [] | Some j \<Rightarrow> [j])"
proof -
  let ?xs = "drop i s"
  have e1: "ends gi (lit ''//'') s i = (if startsWith ?xs (js ''//'') then [i + 2] else [])"
    using ends_lit [of "''//''" gi s i] by (simp add: litAt_slashes del: lit.simps)
  have e2: "ends gi (lit ''#'') s i = (if startsWith ?xs (js ''#'') then [i + 1] else [])"
    using ends_lit [of "''#''" gi s i] by (simp add: litAt_hash del: lit.simps)
  have e3: "ends gi (lit ''*'') s i = (if startsWith ?xs (js ''*'') then [i + 1] else [])"
    using ends_lit [of "''*''" gi s i] by (simp add: litAt_star del: lit.simps)
  have alt: "ends gi (Alt (lit ''//'') (Alt (lit ''#'') (lit ''*''))) s i =
      ends gi (lit ''//'') s i @ ends gi (lit ''#'') s i @ ends gi (lit ''*'') s i"
    by (simp only: ends.simps(5))
  have h1: "hd ?xs = 47" if "startsWith ?xs (js ''//'')"
    using startsWith_hd [OF that] by simp
  have h2: "hd ?xs = 35" if "startsWith ?xs (js ''#'')"
    using startsWith_hd [OF that] by simp
  have h3: "hd ?xs = 42" if "startsWith ?xs (js ''*'')"
    using startsWith_hd [OF that] by simp
  show ?thesis
  proof (cases "startsWith ?xs (js ''//'')")
    case True
    with h2 h3 have "\<not> startsWith ?xs (js ''#'')" "\<not> startsWith ?xs (js ''*'')"
      using h1 by auto
    with True show ?thesis by (simp only: alt e1 e2 e3 leaderEnd_def) simp
  next
    case False
    note nf = this
    show ?thesis
    proof (cases "startsWith ?xs (js ''#'')")
      case True
      with h3 have "\<not> startsWith ?xs (js ''*'')" using h2 by auto
      with True nf show ?thesis by (simp only: alt e1 e2 e3 leaderEnd_def) simp
    next
      case False
      with nf show ?thesis by (simp only: alt e1 e2 e3 leaderEnd_def) simp
    qed
  qed
qed

lemma map_take_hd:
  "map f (take (Suc n) xs) = y # ys \<Longrightarrow> xs \<noteq> [] \<and> f (hd xs) = y"
  by (cases xs) simp_all

lemma ends_keyword:
  "ends gi (Alt (lit ''TODO'') (lit ''FIXME'')) s i =
     (case keywordEnd s i of None \<Rightarrow> [] | Some k \<Rightarrow> [k])"
proof -
  let ?xs = "drop i s"
  have e1: "ends gi (lit ''TODO'') s i =
      (if map canonicalize (take 4 ?xs) = js ''TODO'' then [i + 4] else [])"
    using ends_lit [of "''TODO''" gi s i] by (simp add: litAt_TODO del: lit.simps)
  have e2: "ends gi (lit ''FIXME'') s i =
      (if map canonicalize (take 5 ?xs) = js ''FIXME'' then [i + 5] else [])"
    using ends_lit [of "''FIXME''" gi s i] by (simp add: litAt_FIXME del: lit.simps)
  have alt: "ends gi (Alt (lit ''TODO'') (lit ''FIXME'')) s i =
      ends gi (lit ''TODO'') s i @ ends gi (lit ''FIXME'') s i"
    by (simp only: ends.simps(5))
  have t: "js ''TODO'' = 84 # js ''ODO''" and f: "js ''FIXME'' = 70 # js ''IXME''"
    by (simp_all add: js_def)
  have h1: "canonicalize (hd ?xs) = 84" if "map canonicalize (take 4 ?xs) = js ''TODO''"
    using map_take_hd [of canonicalize 3 ?xs 84 "js ''ODO''"] that t by simp
  have h2: "canonicalize (hd ?xs) = 70" if "map canonicalize (take 5 ?xs) = js ''FIXME''"
    using map_take_hd [of canonicalize 4 ?xs 70 "js ''IXME''"] that f by simp
  show ?thesis
  proof (cases "map canonicalize (take 4 ?xs) = js ''TODO''")
    case True
    with h1 h2 have "map canonicalize (take 5 ?xs) \<noteq> js ''FIXME''" by auto
    with True show ?thesis by (simp only: alt e1 e2 keywordEnd_def) simp
  next
    case False
    then show ?thesis by (simp only: alt e1 e2 keywordEnd_def) simp
  qed
qed

lemma keyword_not_at_space:
  assumes "p < length s" and "isWhiteSpace (s ! p)"
  shows "keywordEnd s p = None"
proof -
  have c: "canonicalize (s ! p) = s ! p"
    using assms(2) by (auto simp: canonicalize_def isWhiteSpace_def isLineTerminator_def)
  have n: "s ! p \<noteq> 84 \<and> s ! p \<noteq> 70"
    using assms(2) by (auto simp: isWhiteSpace_def isLineTerminator_def)
  have d: "drop p s = s ! p # drop (Suc p) s"
    using assms(1) by (simp add: Cons_nth_drop_Suc)
  show ?thesis
    using c n by (simp add: keywordEnd_def d js_def)
qed

lemma ends_star_nonempty: "ends fl (Star a) s i \<noteq> []"
  by (simp add: ends.simps(6))

lemma firstEnd_star_atom:
  "firstEnd fl (Star (Atom a)) s i = Some (skipWhile (atom_matches fl a) s i)"
proof -
  have "i \<le> skipWhile (atom_matches fl a) s i" by (rule skipWhile_ge)
  then show ?thesis by (simp add: firstEnd_def ends_star_atom)
qed

lemma firstEnd_Seq_Cons:
  "ends fl a s i = j # rest \<Longrightarrow> ends fl b s j \<noteq> [] \<Longrightarrow>
   firstEnd fl (Seq a b) s i = firstEnd fl b s j"
  by (cases "ends fl b s j") (simp_all add: firstEnd_def)

lemma ends_Seq_skip:
  assumes "\<And>p. i \<le> p \<Longrightarrow> p < skipWhile (atom_matches fl a) s i \<Longrightarrow> ends fl r s p = []"
  shows "ends fl (Seq (Star (Atom a)) r) s i = ends fl r s (skipWhile (atom_matches fl a) s i)"
proof -
  let ?k = "skipWhile (atom_matches fl a) s i"
  have ik: "i \<le> ?k" by (rule skipWhile_ge)
  have "concat (map (ends fl r s) (rev [i ..< ?k])) = []"
    using assms by simp
  moreover have "rev [i ..< Suc ?k] = ?k # rev [i ..< ?k]"
    using ik by simp
  ultimately show ?thesis
    by (simp add: ends_star_atom)
qed


lemma atom_matches_Space: "atom_matches fl Space = isWhiteSpace"
  by (simp add: fun_eq_iff)

lemma atom_matches_Dot: "atom_matches fl Dot = (\<lambda>c. \<not> isLineTerminator c)"
  by (simp add: fun_eq_iff)

lemma ends_star_atom_Cons:
  "ends fl (Star (Atom a)) s i =
     skipWhile (atom_matches fl a) s i # rev [i ..< skipWhile (atom_matches fl a) s i]"
  using skipWhile_ge [of i "atom_matches fl a" s] by (simp add: ends_star_atom)

lemma ends_Seq_nonempty:
  "ends fl a s i = j # rest \<Longrightarrow> ends fl b s j \<noteq> [] \<Longrightarrow> ends fl (Seq a b) s i \<noteq> []"
  by simp

lemma todoTail_nonempty: "ends gi todoTail s c \<noteq> []"
  unfolding todoTail_def
  by (rule ends_Seq_nonempty [OF ends_star_atom_Cons ends_star_nonempty])

lemma firstEnd_todoTail:
  "firstEnd gi todoTail s c =
     Some (skipWhile (\<lambda>c. \<not> isLineTerminator c) s (skipWhile isWhiteSpace s c))"
proof -
  have "firstEnd gi todoTail s c =
      firstEnd gi (Star (Atom Dot)) s (skipWhile (atom_matches gi Space) s c)"
    unfolding todoTail_def
    by (rule firstEnd_Seq_Cons [OF ends_star_atom_Cons ends_star_nonempty])
  then show ?thesis
    by (simp only: firstEnd_star_atom atom_matches_Space atom_matches_Dot)
qed

lemma ends_opt_colon:
  "ends gi (Opt (lit '':'')) s q =
     colonEnd s q # (if startsWith (drop q s) (js '':'') then [q] else [])"
proof -
  have "ends gi (lit '':'') s q = (if startsWith (drop q s) (js '':'') then [q + 1] else [])"
    using ends_lit [of "'':''" gi s q] by (simp add: litAt_colon del: lit.simps)
  then show ?thesis
    by (simp add: colonEnd_def del: lit.simps)
qed

lemma firstEnd_colon_tail:
  "firstEnd gi (Seq (Opt (lit '':'')) todoTail) s q =
     Some (skipWhile (\<lambda>c. \<not> isLineTerminator c) s (skipWhile isWhiteSpace s (colonEnd s q)))"
proof -
  have "firstEnd gi (Seq (Opt (lit '':'')) todoTail) s q = firstEnd gi todoTail s (colonEnd s q)"
    by (rule firstEnd_Seq_Cons [OF ends_opt_colon todoTail_nonempty])
  then show ?thesis by (simp only: firstEnd_todoTail)
qed

lemma ends_keyword_tail:
  "ends gi (Seq (Alt (lit ''TODO'') (lit ''FIXME'')) r) s k =
     (case keywordEnd s k of None \<Rightarrow> [] | Some q \<Rightarrow> ends gi r s q)"
proof -
  have "ends gi (Seq (Alt (lit ''TODO'') (lit ''FIXME'')) r) s k =
      concat (map (ends gi r s) (ends gi (Alt (lit ''TODO'') (lit ''FIXME'')) s k))"
    by (simp only: ends.simps(4))
  then show ?thesis
    by (simp only: ends_keyword) (simp split: option.split)
qed

lemma ends_space_keyword_tail:
  "ends gi (Seq (Star (Atom Space)) (Seq (Alt (lit ''TODO'') (lit ''FIXME'')) r)) s j =
     (case keywordEnd s (skipWhile isWhiteSpace s j) of
        None \<Rightarrow> []
      | Some q \<Rightarrow> ends gi r s q)"
proof -
  let ?K = "Seq (Alt (lit ''TODO'') (lit ''FIXME'')) r"
  have dead: "ends gi ?K s p = []"
    if "j \<le> p" and "p < skipWhile (atom_matches gi Space) s j" for p
  proof -
    from that have "p < length s \<and> isWhiteSpace (s ! p)"
      using skipWhile_all [of j p "atom_matches gi Space" s]
      by (simp only: atom_matches_Space)
    then have "keywordEnd s p = None" by (simp add: keyword_not_at_space)
    then show ?thesis by (simp only: ends_keyword_tail) simp
  qed
  have "ends gi (Seq (Star (Atom Space)) ?K) s j =
      ends gi ?K s (skipWhile (atom_matches gi Space) s j)"
    by (rule ends_Seq_skip) (rule dead)
  then show ?thesis
    by (simp only: ends_keyword_tail atom_matches_Space)
qed

lemma ends_leader_tail:
  "ends gi (Seq (Alt (lit ''//'') (Alt (lit ''#'') (lit ''*''))) r) s i =
     (case leaderEnd s i of None \<Rightarrow> [] | Some j \<Rightarrow> ends gi r s j)"
proof -
  have "ends gi (Seq (Alt (lit ''//'') (Alt (lit ''#'') (lit ''*''))) r) s i =
      concat (map (ends gi r s) (ends gi (Alt (lit ''//'') (Alt (lit ''#'') (lit ''*''))) s i))"
    by (simp only: ends.simps(4))
  then show ?thesis
    by (simp only: ends_leader) (simp split: option.split)
qed

lemma todoRegex_shape:
  "todoRegex =
     Seq (Alt (lit ''//'') (Alt (lit ''#'') (lit ''*'')))
       (Seq (Star (Atom Space))
         (Seq (Alt (lit ''TODO'') (lit ''FIXME'')) (Seq (Opt (lit '':'')) todoTail)))"
  by (simp only: todoRegex_def todoTail_def seqs.simps)

lemma firstEnd_todoRegex: "firstEnd gi todoRegex s i = todoFragmentEnd s i"
proof (cases "leaderEnd s i")
  case None
  then show ?thesis
    by (simp add: firstEnd_def todoRegex_shape ends_leader_tail todoFragmentEnd_def
        del: lit.simps ends.simps)
next
  case (Some j)
  show ?thesis
  proof (cases "keywordEnd s (skipWhile isWhiteSpace s j)")
    case None
    with Some show ?thesis
      by (simp add: firstEnd_def todoRegex_shape ends_leader_tail ends_space_keyword_tail
          todoFragmentEnd_def del: lit.simps ends.simps)
  next
    case (Some q)
    have "ends gi todoRegex s i = ends gi (Seq (Opt (lit '':'')) todoTail) s q"
      using \<open>leaderEnd s i = Some j\<close> Some
      by (simp add: todoRegex_shape ends_leader_tail ends_space_keyword_tail
          del: lit.simps ends.simps)
    then have "firstEnd gi todoRegex s i = firstEnd gi (Seq (Opt (lit '':'')) todoTail) s q"
      by (simp only: firstEnd_def)
    with \<open>leaderEnd s i = Some j\<close> Some show ?thesis
      by (simp add: firstEnd_colon_tail todoFragmentEnd_def del: lit.simps ends.simps)
  qed
qed


lemma regexExec_firstEnd:
  "regexExec fl r s i =
     (if length s < i then None
      else (case firstEnd fl r s i of
              None \<Rightarrow> regexExec fl r s (Suc i)
            | Some e \<Rightarrow> Some (i, e)))"
  by (subst regexExec.simps) (simp add: firstEnd_def split: list.split)

lemma matchAllFrom_todoRegex: "matchAllFrom gi todoRegex s i = todoFragments s i"
proof (induction s i rule: todoFragments.induct)
  case (1 s i)
  show ?case
  proof (cases "length s < i")
    case True
    then have "regexExec gi todoRegex s i = None"
      by (subst regexExec_firstEnd) simp
    with True show ?thesis
      by (subst matchAllFrom.simps, subst todoFragments.simps) simp
  next
    case False
    note inside = this
    show ?thesis
    proof (cases "todoFragmentEnd s i")
      case None
      with inside have "regexExec gi todoRegex s i = regexExec gi todoRegex s (Suc i)"
        by (subst regexExec_firstEnd) (simp add: firstEnd_todoRegex)
      then have "matchAllFrom gi todoRegex s i = matchAllFrom gi todoRegex s (Suc i)"
        by (subst matchAllFrom.simps, subst (2) matchAllFrom.simps) simp
      also have "\<dots> = todoFragments s (Suc i)"
        using inside None by (rule "1.IH"(1))
      also have "\<dots> = todoFragments s i"
        using inside None by (subst (2) todoFragments.simps) simp
      finally show ?thesis .
    next
      case (Some e)
      then have ie: "i < e" by (rule todoFragmentEnd_gt)
      from inside Some have "regexExec gi todoRegex s i = Some (i, e)"
        by (subst regexExec_firstEnd) (simp add: firstEnd_todoRegex)
      with ie have "matchAllFrom gi todoRegex s i = (i, e) # matchAllFrom gi todoRegex s e"
        by (subst matchAllFrom.simps) simp
      also have "matchAllFrom gi todoRegex s e = todoFragments s e"
        using inside Some by (rule "1.IH"(2))
      also have "(i, e) # todoFragments s e = todoFragments s i"
        using inside Some by (subst (2) todoFragments.simps) simp
      finally show ?thesis .
    qed
  qed
qed



lemma trim_ends: "trim s = [] \<or> (\<not> isWhiteSpace (hd (trim s)) \<and> \<not> isWhiteSpace (last (trim s)))"
proof (cases "trim s = []")
  case True
  then show ?thesis by simp
next
  case False
  let ?t = "dropWhile isWhiteSpace s"
  let ?u = "dropWhile isWhiteSpace (rev ?t)"
  have tu: "trim s = rev ?u" by (simp add: trim_def)
  with False have une: "?u \<noteq> []" by simp
  then have "\<not> isWhiteSpace (hd ?u)" by (rule hd_dropWhile)
  then have l: "\<not> isWhiteSpace (last (trim s))"
    using une by (simp add: tu last_rev)
  have tne: "?t \<noteq> []"
  proof
    assume e: "?t = []"
    have "?u = []" by (simp only: e rev.simps dropWhile.simps)
    with une show False by contradiction
  qed
  then have ht: "\<not> isWhiteSpace (hd ?t)" by (rule hd_dropWhile)
  have "rev ?t = takeWhile isWhiteSpace (rev ?t) @ ?u" by simp
  then have "?t = rev ?u @ rev (takeWhile isWhiteSpace (rev ?t))"
    by (metis rev_append rev_rev_ident)
  then have "hd ?t = hd (rev ?u)" using une by (metis hd_append2 rev_is_Nil_conv)
  with ht have "\<not> isWhiteSpace (hd (trim s))" by (simp add: tu)
  with l show ?thesis by simp
qed

lemma trim_idem: "trim (trim s) = trim s"
proof (cases "trim s = []")
  case True
  have "trim (trim s) = trim []" by (simp only: True)
  also have "trim [] = []" by (simp add: trim_def)
  finally show ?thesis by (simp only: True)
next
  case False
  with trim_ends [of s] have h: "\<not> isWhiteSpace (hd (trim s))" and l: "\<not> isWhiteSpace (last (trim s))"
    by simp_all
  from False h have a: "dropWhile isWhiteSpace (trim s) = trim s"
    by (simp add: dropWhile_eq_self_iff)
  from False l have b: "dropWhile isWhiteSpace (rev (trim s)) = rev (trim s)"
    by (simp add: dropWhile_eq_self_iff hd_rev)
  show ?thesis
    by (subst trim_def) (simp add: a b)
qed


section \<open>The extractors\<close>

lemmas eval_defs = js_def isWhiteSpace_def isLineTerminator_def isWordChar_def canonicalize_def
  trim_def startsWith_def substring_def countLines_def lineFilter_def split_nl.simps
  Plus_def gm_def gi_def functionRegex_def arrowFunctionRegex_def regularFunctionRegex_def
  todoRegex_def countMethods_def findTodos_def matchAll_def stringMatch_def orEmpty_def
  regexExec.simps matchAllFrom.simps ends.simps

lemma findTodos_matchAll:
  "findTodos T = map (\<lambda>(a, e). trim (substring T a e)) (todoFragments T 0)"
  by (simp add: findTodos_def matchAll_def matchAllFrom_todoRegex)

text \<open>
  Claim C10. In the text whose first line is \<^verbatim>\<open>//\<close> and whose second line is
  \<^verbatim>\<open>TODO fix\<close>, \<open>findTodos\<close> returns one fragment that covers both lines, although
  neither line alone has a fragment.
\<close>

theorem findTodos_spans_lines:
  "findTodos (js ''//\<newline>TODO fix'') = [js ''//\<newline>TODO fix'']
   \<and> split_nl (js ''//\<newline>TODO fix'') = [js ''//'', js ''TODO fix'']
   \<and> findTodos (js ''//'') = []
   \<and> findTodos (js ''TODO fix'') = []"
  by (simp add: eval_defs)

lemma length_stringMatch:
  "length (orEmpty (stringMatch fl r s)) = length (matchAll fl r s)"
  by (cases "matchAll fl r s") (simp_all add: stringMatch_def orEmpty_def)

text \<open>
  Claim C3. For every text \<open>countMethods\<close> is the sum of the numbers of matches of the three
  expressions, nothing being removed. In \<^verbatim>\<open>const f = () => {}\<close> the broad expression
  matches \<^verbatim>\<open>f = () =>\<close> (indices 6 to 15) and the arrow expression matches
  \<^verbatim>\<open>const f = () =>\<close> (indices 0 to 15): one construct, counted twice, and the count
  of the line is 2.
\<close>

theorem countMethods_sum:
  "countMethods T =
     length (matchAll gm functionRegex T) + length (matchAll gm arrowFunctionRegex T) +
     length (matchAll gm regularFunctionRegex T)
   \<and> matchAll gm functionRegex (js ''const f = () => {}'') = [(6, 15)]
   \<and> matchAll gm arrowFunctionRegex (js ''const f = () => {}'') = [(0, 15)]
   \<and> matchAll gm regularFunctionRegex (js ''const f = () => {}'') = []
   \<and> countMethods (js ''const f = () => {}'') = 2"
proof -
  have g: "countMethods T =
     length (matchAll gm functionRegex T) + length (matchAll gm arrowFunctionRegex T) +
     length (matchAll gm regularFunctionRegex T)" for T
    by (simp add: countMethods_def Let_def length_stringMatch)
  have a: "matchAll gm functionRegex (js ''const f = () => {}'') = [(6, 15)]"
    by (simp add: eval_defs)
  have b: "matchAll gm arrowFunctionRegex (js ''const f = () => {}'') = [(0, 15)]"
    by (simp add: eval_defs)
  have c: "matchAll gm regularFunctionRegex (js ''const f = () => {}'') = []"
    by (simp add: eval_defs)
  from a b c show ?thesis by (simp add: g)
qed


lemma startsWith_prefix: "startsWith s p = prefix p s"
  unfolding startsWith_def by (metis append_eq_conv_conj prefix_def take_is_prefix)

lemma lineFilter_countedLine: "lineFilter = countedLine"
  by (simp add: fun_eq_iff lineFilter_def countedLine_def Let_def startsWith_prefix)

lemma split_nl_no_newline:
  "10 \<notin> set s \<Longrightarrow> split_nl s = [s]"
proof -
  assume "10 \<notin> set s"
  then have a: "\<forall>c\<in>set s. c \<noteq> 10" by auto
  then have d: "dropWhile (\<lambda>c. c \<noteq> 10) s = []" and t: "takeWhile (\<lambda>c. c \<noteq> 10) s = s"
    by simp_all
  show ?thesis by (subst split_nl.simps) (simp only: d t list.case)
qed

lemma split_nl_line:
  "10 \<notin> set l \<Longrightarrow> split_nl (l @ 10 # rest) = l # split_nl rest"
proof -
  assume "10 \<notin> set l"
  then have a: "\<forall>c\<in>set l. c \<noteq> 10" by auto
  then have d: "dropWhile (\<lambda>c. c \<noteq> 10) (l @ 10 # rest) = 10 # rest"
    by (simp add: dropWhile_append3)
  from a have t: "takeWhile (\<lambda>c. c \<noteq> 10) (l @ 10 # rest) = l"
    by (simp add: takeWhile_tail)
  show ?thesis by (subst split_nl.simps) (simp add: d t)
qed

lemma split_nl_join:
  "ls \<noteq> [] \<Longrightarrow> list_all (\<lambda>l. 10 \<notin> set l) ls \<Longrightarrow> split_nl (join [10] ls) = ls"
proof (induction "[10::nat]" ls rule: join.induct)
  case 1
  then show ?case by simp
next
  case (2 x)
  then show ?case by (simp add: split_nl_no_newline)
next
  case (3 x y ys)
  then show ?case by (simp add: split_nl_line)
qed

lemma split_nl_nonempty: "split_nl s \<noteq> []"
  by (subst split_nl.simps) (simp split: list.split)

lemma join_Cons: "ys \<noteq> [] \<Longrightarrow> join sep (x # ys) = x @ sep @ join sep ys"
  by (cases ys) simp_all

lemma join_split_nl: "join [10] (split_nl s) = s"
proof (induction s rule: split_nl.induct)
  case (1 s)
  show ?case
  proof (cases "dropWhile (\<lambda>c. c \<noteq> 10) s")
    case Nil
    have "takeWhile (\<lambda>c. c \<noteq> 10) s @ dropWhile (\<lambda>c. c \<noteq> 10) s = s"
      by (rule takeWhile_dropWhile_id)
    then have tk: "takeWhile (\<lambda>c. c \<noteq> 10) s = s" by (simp only: Nil append_Nil2)
    show ?thesis by (subst split_nl.simps) (simp only: Nil tk list.case join.simps)
  next
    case (Cons c rest)
    have "\<not> (hd (dropWhile (\<lambda>c. c \<noteq> 10) s) \<noteq> 10)"
      by (rule hd_dropWhile) (simp add: Cons)
    with Cons have c: "c = 10" by simp
    have id: "takeWhile (\<lambda>c. c \<noteq> 10) s @ dropWhile (\<lambda>c. c \<noteq> 10) s = s"
      by (rule takeWhile_dropWhile_id)
    have ih: "join [10] (split_nl rest) = rest" using Cons by (rule "1.IH")
    have "split_nl s = takeWhile (\<lambda>c. c \<noteq> 10) s # split_nl rest"
      by (subst split_nl.simps) (simp add: Cons)
    then have "join [10] (split_nl s) = takeWhile (\<lambda>c. c \<noteq> 10) s @ [10] @ rest"
      by (simp add: join_Cons split_nl_nonempty ih)
    also have "\<dots> = s" using id Cons c by simp
    finally show ?thesis .
  qed
qed

lemma split_nl_lines: "list_all (\<lambda>l. 10 \<notin> set l) (split_nl s)"
proof (induction s rule: split_nl.induct)
  case (1 s)
  have t: "10 \<notin> set (takeWhile (\<lambda>c. c \<noteq> 10) s)"
    using set_takeWhileD [of 10 "\<lambda>c. c \<noteq> 10" s] by auto
  show ?case
  proof (cases "dropWhile (\<lambda>c. c \<noteq> 10) s")
    case Nil
    show ?thesis by (subst split_nl.simps) (simp only: Nil list.case list.pred_inject t simp_thms)
  next
    case (Cons c rest)
    with t "1.IH" [OF Cons] show ?thesis by (subst split_nl.simps) simp
  qed
qed

text \<open>
  Claim C4. The physical lines of a text are the pieces between its line feeds: joining
  them with line feeds gives the text back, none contains a line feed, and there is at
  least one. \<open>countLines\<close> is the number of those lines that, once trimmed, are not empty and
  do not start with \<^verbatim>\<open>//\<close>, \<^verbatim>\<open>/*\<close>, \<^verbatim>\<open>*\<close>, \<^verbatim>\<open>import \<close> or \<^verbatim>\<open>export \<close>. Said from
  the lines: for any lines without line feed, the text made of them is split into exactly
  them, and its count is the number of counted lines among them, so that a blank line or
  a line with one of the five prefixes never adds to the count.
\<close>

theorem countLines_counts:
  "join (js ''\<newline>'') (split_nl T) = T
   \<and> split_nl T \<noteq> []
   \<and> list_all (\<lambda>l. 10 \<notin> set l) (split_nl T)
   \<and> countLines T = length (filter countedLine (split_nl T))
   \<and> (ls \<noteq> [] \<and> list_all (\<lambda>l. 10 \<notin> set l) ls \<longrightarrow>
        split_nl (join (js ''\<newline>'') ls) = ls \<and>
        countLines (join (js ''\<newline>'') ls) = length (filter countedLine ls))"
proof -
  have n: "js ''\<newline>'' = [10]" by (simp add: js_def)
  show ?thesis
    unfolding n
    by (simp add: join_split_nl split_nl_nonempty split_nl_lines countLines_def
        lineFilter_countedLine split_nl_join)
qed

theorem countLines_counts_witness:
  "[js ''a'', js '''', js ''  // c'', js ''import x'', js '' b '', js ''*/'', js ''export y'', js ''/* d''] \<noteq> []
   \<and> list_all (\<lambda>l. 10 \<notin> set l)
        [js ''a'', js '''', js ''  // c'', js ''import x'', js '' b '', js ''*/'', js ''export y'', js ''/* d'']
   \<and> countLines (js ''a\<newline>\<newline>  // c\<newline>import x\<newline> b \<newline>*/\<newline>export y\<newline>/* d'') = 2"
proof -
  let ?ls = "[js ''a'', js '''', js ''  // c'', js ''import x'', js '' b '', js ''*/'', js ''export y'', js ''/* d'']"
  have a: "?ls \<noteq> []" by simp
  have b: "list_all (\<lambda>l. 10 \<notin> set l) ?ls" by (simp add: js_def)
  have j: "join (js ''\<newline>'') ?ls =
      js ''a\<newline>\<newline>  // c\<newline>import x\<newline> b \<newline>*/\<newline>export y\<newline>/* d''"
    by (simp add: js_def)
  have f: "length (filter countedLine ?ls) = 2"
    by (simp add: countedLine_def trim_def js_def isWhiteSpace_def isLineTerminator_def)
  from countLines_counts [of _ ?ls] a b have
    "countLines (join (js ''\<newline>'') ?ls) = length (filter countedLine ?ls)"
    by blast
  with a b show ?thesis unfolding j f by simp
qed


lemma stringMatch_None: "(stringMatch fl r s = None) = (matchAll fl r s = [])"
  by (cases "matchAll fl r s") (simp_all add: stringMatch_def)

section \<open>Matches do not depend on the text before them\<close>

text \<open>
  A match in \<open>P\<close> is found at the same place, moved by the length of \<open>F\<close>, in \<open>F @ P\<close>,
  provided that \<^verbatim>\<open>^\<close> sees the same thing at the seam: \<open>F\<close> is empty, or the
  expression is multiline and \<open>F\<close> ends with a line terminator.
\<close>

lemma ends_shift:
  assumes "F = [] \<or> (multiline fl \<and> isLineTerminator (last F))"
  shows "ends fl r (F @ P) (length F + i) = map ((+) (length F)) (ends fl r P i)"
  using assms
proof (induction fl r P i rule: ends.induct)
  case (1 fl s i)
  show ?case by simp
next
  case (2 fl a s i)
  show ?case by (simp add: nth_append)
next
  case (3 fl s i)
  show ?case
  proof (cases "i = 0")
    case True
    show ?thesis
    proof (cases "F = []")
      case True
      with \<open>i = 0\<close> show ?thesis by simp
    next
      case False
      with "3.prems" have m: "multiline fl" and l: "isLineTerminator (last F)" by simp_all
      from False have "(F @ s) ! (length F - 1) = last F"
        by (simp add: nth_append last_conv_nth)
      with False m l \<open>i = 0\<close> show ?thesis by simp
    qed
  next
    case False
    then have "length F + i - 1 = length F + (i - 1)" by simp
    then have "(F @ s) ! (length F + i - 1) = s ! (i - 1)"
      by (simp only: nth_append_length_plus)
    with False show ?thesis by simp
  qed
next
  case (4 fl a b s i)
  have a: "ends fl a (F @ s) (length F + i) = map ((+) (length F)) (ends fl a s i)"
    using "4.prems" by (rule "4.IH"(1))
  have b: "ends fl b (F @ s) (length F + x) = map ((+) (length F)) (ends fl b s x)"
    if "x \<in> set (ends fl a s i)" for x
    using that "4.prems" by (rule "4.IH"(2))
  have "ends fl (Seq a b) (F @ s) (length F + i) =
      concat (map (\<lambda>x. ends fl b (F @ s) (length F + x)) (ends fl a s i))"
    by (simp add: a o_def)
  also have "\<dots> = concat (map (\<lambda>x. map ((+) (length F)) (ends fl b s x)) (ends fl a s i))"
    using b by (simp cong: map_cong)
  also have "\<dots> = map ((+) (length F)) (ends fl (Seq a b) s i)"
    by (simp add: map_concat o_def)
  finally show ?case .
next
  case (5 fl a b s i)
  then show ?case by simp
next
  case (6 fl a s i)
  have a: "ends fl a (F @ s) (length F + i) = map ((+) (length F)) (ends fl a s i)"
    using "6.prems" by (rule "6.IH"(1))
  have b: "ends fl (Star a) (F @ s) (length F + x) = map ((+) (length F)) (ends fl (Star a) s x)"
    if "x \<in> set (ends fl a s i)" and "i < x \<and> x \<le> length s" for x
    using that "6.prems" by (rule "6.IH"(2))
  have "ends fl (Star a) (F @ s) (length F + i) =
      concat (map (\<lambda>x. if i < x \<and> x \<le> length s
                         then ends fl (Star a) (F @ s) (length F + x) else [])
                  (ends fl a s i)) @ [length F + i]"
    by (subst ends.simps(6)) (simp add: a o_def)
  also have "concat (map (\<lambda>x. if i < x \<and> x \<le> length s
                         then ends fl (Star a) (F @ s) (length F + x) else [])
                  (ends fl a s i)) =
      concat (map (\<lambda>x. map ((+) (length F))
                         (if i < x \<and> x \<le> length s then ends fl (Star a) s x else []))
                  (ends fl a s i))"
    using b by (auto intro!: arg_cong [where f = concat] map_cong)
  also have "\<dots> @ [length F + i] = map ((+) (length F)) (ends fl (Star a) s i)"
    by (subst (2) ends.simps(6)) (simp add: map_concat o_def)
  finally show ?case .
next
  case (7 fl a s i)
  have a: "ends fl a (F @ s) (length F + i) = map ((+) (length F)) (ends fl a s i)"
    using "7.prems" by (rule "7.IH")
  show ?case by (simp add: a filter_map o_def)
qed


lemma regexExec_shift:
  assumes "F = [] \<or> (multiline fl \<and> isLineTerminator (last F))"
  shows "regexExec fl r (F @ P) (length F + i) =
     map_option (shiftSpan (length F)) (regexExec fl r P i)"
  using assms
proof (induction fl r P i rule: regexExec.induct)
  case (1 fl r s i)
  note sh = ends_shift [OF "1.prems", where r = r and P = s and i = i]
  show ?case
  proof (cases "length s < i")
    case True
    then show ?thesis
      by (subst regexExec.simps, subst (2) regexExec.simps) simp
  next
    case False
    note inside = this
    show ?thesis
    proof (cases "ends fl r s i")
      case Nil
      have "regexExec fl r (F @ s) (length F + Suc i) =
          map_option (shiftSpan (length F)) (regexExec fl r s (Suc i))"
        using inside Nil "1.prems" by (rule "1.IH")
      with inside Nil sh show ?thesis
        by (subst regexExec.simps, subst (2) regexExec.simps) simp
    next
      case (Cons e es)
      with inside sh show ?thesis
        by (subst regexExec.simps, subst (2) regexExec.simps) (simp add: shiftSpan_def)
    qed
  qed
qed


lemma matchAllFrom_shift:
  assumes "F = [] \<or> (multiline fl \<and> isLineTerminator (last F))"
  shows "matchAllFrom fl r (F @ P) (length F + i) =
     map (shiftSpan (length F)) (matchAllFrom fl r P i)"
  using assms
proof (induction fl r P i rule: matchAllFrom.induct)
  case (1 fl r s i)
  note sh = regexExec_shift [OF "1.prems", where r = r and P = s and i = i]
  show ?case
  proof (cases "regexExec fl r s i")
    case None
    with sh show ?thesis
      by (subst matchAllFrom.simps, subst (2) matchAllFrom.simps) simp
  next
    case (Some x)
    obtain a e where x: "x = (a, e)" by (cases x)
    have ih: "matchAllFrom fl r (F @ s) (length F + (if e = a then Suc e else e)) =
        map (shiftSpan (length F)) (matchAllFrom fl r s (if e = a then Suc e else e))"
      using Some x "1.prems" by (intro "1.IH") simp_all
    have n: "(if length F + e = length F + a then Suc (length F + e) else length F + e) =
        length F + (if e = a then Suc e else e)"
      by simp
    have "matchAllFrom fl r (F @ s) (length F + i) =
        (length F + a, length F + e) #
        matchAllFrom fl r (F @ s) (length F + (if e = a then Suc e else e))"
      using Some x sh by (subst matchAllFrom.simps) (simp add: shiftSpan_def n)
    also have "\<dots> = map (shiftSpan (length F)) ((a, e) # matchAllFrom fl r s (if e = a then Suc e else e))"
      by (simp add: ih shiftSpan_def)
    also have "(a, e) # matchAllFrom fl r s (if e = a then Suc e else e) = matchAllFrom fl r s i"
      using Some x by (subst (2) matchAllFrom.simps) simp
    finally show ?thesis .
  qed
qed

lemma matchAllFrom_skip:
  assumes "ends fl r s i = []" and "i \<le> length s"
  shows "matchAllFrom fl r s i = matchAllFrom fl r s (Suc i)"
proof -
  have "regexExec fl r s i = regexExec fl r s (Suc i)"
    using assms by (subst regexExec.simps) simp
  then show ?thesis
    by (subst matchAllFrom.simps, subst (2) matchAllFrom.simps) simp
qed

text \<open>A line that holds only a semicolon, put before a text.\<close>

lemma matchAll_semicolon_line:
  assumes "ends gm r (59 # 10 # P) 0 = []" and "ends gm r (59 # 10 # P) (Suc 0) = []"
  shows "length (matchAll gm r (59 # 10 # P)) = length (matchAll gm r P)"
proof -
  have "matchAllFrom gm r (59 # 10 # P) 0 = matchAllFrom gm r (59 # 10 # P) (Suc 0)"
    using assms(1) by (rule matchAllFrom_skip) simp
  also have "\<dots> = matchAllFrom gm r (59 # 10 # P) (Suc (Suc 0))"
    using assms(2) by (rule matchAllFrom_skip) simp
  also have "\<dots> = matchAllFrom gm r ([59, 10] @ P) (length [59, 10 :: nat] + 0)"
    by simp
  also have "\<dots> = map (shiftSpan (length [59, 10 :: nat])) (matchAllFrom gm r P 0)"
    by (rule matchAllFrom_shift) (simp add: gm_def isLineTerminator_def)
  finally show ?thesis by (simp add: matchAll_def)
qed

lemma countMethods_semicolon_line: "countMethods (59 # 10 # P) = countMethods P"
proof -
  have f0: "ends gm functionRegex (59 # 10 # P) 0 = []"
    by (simp add: functionRegex_def Plus_def gm_def isWhiteSpace_def isLineTerminator_def
        isWordChar_def ends.simps(6))
  have f1: "ends gm functionRegex (59 # 10 # P) (Suc 0) = []"
    by (simp add: functionRegex_def Plus_def gm_def isWhiteSpace_def isLineTerminator_def
        isWordChar_def ends.simps(6))
  have a0: "ends gm arrowFunctionRegex (59 # 10 # P) 0 = []"
    by (simp add: arrowFunctionRegex_def Plus_def gm_def)
  have a1: "ends gm arrowFunctionRegex (59 # 10 # P) (Suc 0) = []"
    by (simp add: arrowFunctionRegex_def Plus_def gm_def)
  have r0: "ends gm regularFunctionRegex (59 # 10 # P) 0 = []"
    by (simp add: regularFunctionRegex_def Plus_def gm_def)
  have r1: "ends gm regularFunctionRegex (59 # 10 # P) (Suc 0) = []"
    by (simp add: regularFunctionRegex_def Plus_def gm_def)
  show ?thesis
    by (simp add: countMethods_def Let_def length_stringMatch
        matchAll_semicolon_line [OF f0 f1] matchAll_semicolon_line [OF a0 a1]
        matchAll_semicolon_line [OF r0 r1])
qed

lemma countLines_semicolon_line: "countLines (59 # 10 # P) = Suc (countLines P)"
proof -
  have "split_nl ([59] @ 10 # P) = [59] # split_nl P"
    by (rule split_nl_line) simp
  moreover have "lineFilter [59]"
    by (simp add: lineFilter_def trim_def isWhiteSpace_def isLineTerminator_def
        startsWith_def js_def)
  ultimately show ?thesis by (simp add: countLines_def)
qed


section \<open>The issues of one file\<close>

lemma countMethods_padded: "countMethods (padded n P) = countMethods P"
  by (induction n) (simp_all add: countMethods_semicolon_line)

lemma countLines_padded: "countLines (padded n P) = n + countLines P"
  by (induction n) (simp_all add: countLines_semicolon_line)

lemma fiveArrows_lines: "countLines fiveArrows = 5"
  by (simp add: fiveArrows_def eval_defs)

lemma fiveArrows_methods: "countMethods fiveArrows = 9"
  by (simp add: fiveArrows_def eval_defs)

text \<open>
  Claim C5. When the loop analyzes a file whose content has 250 counted lines and 9
  methods, it appends exactly two issues for that file, the one on the lines before the one
  on the methods, and then the todo entries of the file, one per fragment, to the list of
  todo entries.
\<close>

theorem large_file_many_methods:
  assumes "eligible f" and "getContent api (filename f) = Inr (Some b64)"
    and "countLines (decodeBase64 api b64) = 250"
    and "countMethods (decodeBase64 api b64) = 9"
  shows "issues (analyzeFile api st f) =
      issues st @
      [js ''- `'' @ filename f @ js ''`: LOC = 250 '' @ [55357, 56613],
       js ''- `'' @ filename f @ js ''`: Method Count = 9 '' @ [55358, 56800]]
    \<and> todoComments (analyzeFile api st f) =
      todoComments st @ map (todoComment (filename f)) (findTodos (decodeBase64 api b64))"
proof -
  have n: "numberToString 250 = js ''250''" and m: "numberToString 9 = js ''9''"
    by (simp_all add: numberToString.simps js_def)
  have i: "fileIssues api f =
      [js ''- `'' @ filename f @ js ''`: LOC = 250 '' @ [55357, 56613],
       js ''- `'' @ filename f @ js ''`: Method Count = 9 '' @ [55358, 56800]]"
    using assms by (simp add: fileIssues_def contentIssues_def locIssue_def nomIssue_def n m js_def)
  have t: "fileTodos api f = map (todoComment (filename f)) (findTodos (decodeBase64 api b64))"
    using assms by (simp add: fileTodos_def)
  show ?thesis by (simp only: analyzeFile_issues analyzeFile_todos i t simp_thms)
qed

theorem large_file_many_methods_witness:
  "eligible bigFile
   \<and> getContent bigApi (filename bigFile) = Inr (Some (padded 245 fiveArrows))
   \<and> countLines (decodeBase64 bigApi (padded 245 fiveArrows)) = 250
   \<and> countMethods (decodeBase64 bigApi (padded 245 fiveArrows)) = 9
   \<and> issues (analyzeFile bigApi (initial []) bigFile) =
       [js ''- `big.js`: LOC = 250 '' @ [55357, 56613],
        js ''- `big.js`: Method Count = 9 '' @ [55358, 56800]]"
proof -
  have e: "eligible bigFile"
    by (simp add: bigFile_def eligible_def endsWith_def truthy_def js_def)
  have g: "getContent bigApi (filename bigFile) = Inr (Some (padded 245 fiveArrows))"
    by (simp add: bigApi_def)
  have d: "decodeBase64 bigApi (padded 245 fiveArrows) = padded 245 fiveArrows"
    by (simp add: bigApi_def)
  have l: "countLines (decodeBase64 bigApi (padded 245 fiveArrows)) = 250"
    unfolding d by (simp add: countLines_padded fiveArrows_lines)
  have m: "countMethods (decodeBase64 bigApi (padded 245 fiveArrows)) = 9"
    unfolding d by (simp add: countMethods_padded fiveArrows_methods)
  have f: "filename bigFile = js ''big.js''"
    by (simp add: bigFile_def)
  from large_file_many_methods [OF e g l m, of "initial []"] e g l m
  show ?thesis by (simp add: f initial_def js_def)
qed


section \<open>The aggregation on the example\<close>

lemma todo_line_metrics:
  "countLines (js ''// TODO: x'') = 0" "countMethods (js ''// TODO: x'') = 0"
  "findTodos (js ''// TODO: x'') = [js ''// TODO: x'']"
  by (simp_all add: eval_defs)

lemma analyzeContent_todo_line:
  "analyzeContent fname (js ''// TODO: x'') st =
     st\<lparr>logged := logged st @ [LogInfo (js ''Analyzing '' @ fname @ js '':'')],
        todoComments := todoComments st @ [js ''- `'' @ fname @ js ''`: // TODO: x'']\<rparr>"
  by (simp add: analyzeContent_def Let_def todo_line_metrics todoComment_def) (simp add: js_def)

text \<open>
  Claim C1, amended. Of the changed files \<^verbatim>\<open>a.js\<close> (patch), \<^verbatim>\<open>b.png\<close> (patch),
  \<^verbatim>\<open>package.json\<close> (patch) and \<^verbatim>\<open>package-lock.json\<close> (no patch) only \<^verbatim>\<open>a.js\<close> is
  eligible. Whatever the content calls answer, the loop ends in the state that the analysis
  of \<^verbatim>\<open>a.js\<close> gives from the answer of the content call for \<^verbatim>\<open>a.js\<close> (its metrics when
  the call succeeds, the logged error when it fails), with both package flags set: the
  manifest counts as changed and so does the lockfile. For every list of changed files each
  flag is set exactly when the file name occurs in the list, whatever the extension and
  whether or not there is a patch. When every file reads \<^verbatim>\<open>// TODO: x\<close>, the loop ends with
  no issue, the one todo entry of \<^verbatim>\<open>a.js\<close>, both flags set and one log line, for \<^verbatim>\<open>a.js\<close>.
\<close>

theorem example_aggregation:
  "eligible \<lparr>filename = js ''a.js'', patch = Some (js ''@@ -1 +1 @@'')\<rparr>
   \<and> \<not> eligible \<lparr>filename = js ''b.png'', patch = Some (js ''@@ -1 +1 @@'')\<rparr>
   \<and> \<not> eligible \<lparr>filename = js ''package.json'', patch = Some (js ''@@ -1 +1 @@'')\<rparr>
   \<and> \<not> eligible \<lparr>filename = js ''package-lock.json'', patch = None\<rparr>
   \<and> analyzeFiles api (initial l) exampleFiles =
       (case getContent api (js ''a.js'') of
          Inl e \<Rightarrow> analyzeFailed (js ''a.js'') e (initial l)
        | Inr None \<Rightarrow> analyzeFailed (js ''a.js'') InvalidArgType (initial l)
        | Inr (Some b64) \<Rightarrow> analyzeContent (js ''a.js'') (decodeBase64 api b64) (initial l))
       \<lparr>pkgJsonModified := True, pkgLockModified := True\<rparr>
   \<and> analyzeFiles api (initial l) exampleFiles =
       (analyzeFiles api (initial l) [\<lparr>filename = js ''a.js'', patch = Some (js ''@@ -1 +1 @@'')\<rparr>])
         \<lparr>pkgJsonModified := True, pkgLockModified := True\<rparr>
   \<and> (\<forall>files. pkgJsonModified (analyzeFiles api (initial l) files) =
          (js ''package.json'' \<in> set (map filename files)))
   \<and> (\<forall>files. pkgLockModified (analyzeFiles api (initial l) files) =
          (js ''package-lock.json'' \<in> set (map filename files)))
   \<and> analyzeFiles todoApi (initial []) exampleFiles =
       \<lparr>issues = [], todoComments = [js ''- `a.js`: // TODO: x''],
        pkgJsonModified = True, pkgLockModified = True,
        logged = [LogInfo (js ''Analyzing a.js:'')]\<rparr>"
proof -
  let ?a = "\<lparr>filename = js ''a.js'', patch = Some (js ''@@ -1 +1 @@'')\<rparr>"
  have a: "eligible ?a"
    by (simp add: eligible_def endsWith_def truthy_def js_def)
  have b: "\<not> eligible \<lparr>filename = js ''b.png'', patch = Some (js ''@@ -1 +1 @@'')\<rparr>"
    by (simp add: eligible_def endsWith_def js_def)
  have p: "\<not> eligible \<lparr>filename = js ''package.json'', patch = Some (js ''@@ -1 +1 @@'')\<rparr>"
    by (simp add: package_files_not_eligible)
  have k: "\<not> eligible \<lparr>filename = js ''package-lock.json'', patch = None\<rparr>"
    by (simp add: package_files_not_eligible)
  have one: "analyzeFiles api (initial l) exampleFiles =
     (analyzeFiles api (initial l) [?a])\<lparr>pkgJsonModified := True, pkgLockModified := True\<rparr>"
    for api l
    by (simp add: analyzeFiles_def exampleFiles_def analyzeFile_not_eligible [OF b]
        analyzeFile_not_eligible [OF p] analyzeFile_not_eligible [OF k] analyzeFile_pkgJson analyzeFile_pkgLock)
  have step: "analyzeFiles api (initial l) [?a] =
      (case getContent api (js ''a.js'') of
          Inl e \<Rightarrow> analyzeFailed (js ''a.js'') e (initial l)
        | Inr None \<Rightarrow> analyzeFailed (js ''a.js'') InvalidArgType (initial l)
        | Inr (Some b64) \<Rightarrow> analyzeContent (js ''a.js'') (decodeBase64 api b64) (initial l))"
    for api l
    using analyzeFile_eligible [OF a, of api "initial l"]
    by (simp add: analyzeFiles_def split: sum.split option.split)
  have conc: "analyzeFiles todoApi (initial []) exampleFiles =
       \<lparr>issues = [], todoComments = [js ''- `a.js`: // TODO: x''],
        pkgJsonModified = True, pkgLockModified = True,
        logged = [LogInfo (js ''Analyzing a.js:'')]\<rparr>"
    unfolding one step
    by (simp add: todoApi_def analyzeContent_todo_line initial_def) (simp add: js_def)
  from a b p k one [of api l] step [of api l] conc show ?thesis
    by (simp add: analyzeFiles_pkgJson analyzeFiles_pkgLock initial_def)
qed


section \<open>A content call that fails\<close>

text \<open>
  Claim C8. When the content call fails for an eligible file, the loop logs the error and
  goes on. At the end of the loop the issues are those found in the content of the files
  before and after it, in their order, and so are the todo entries: every other eligible
  file contributes its issues and its todo entries, and the failing file contributes
  nothing, so that the issues, the todo entries and the two package flags are those of the
  list without that file. The log holds the error between the entries of the files before
  and after. The handler does not throw because of it: with an installation, a list of
  files and a successful comment call it posts the body composed from the other files and
  returns.
\<close>

theorem fetch_failure_tolerated:
  assumes "eligible f" and "getContent api (filename f) = Inl e"
  shows "issues (analyzeFiles api st (xs @ f # ys)) =
        issues st @ concat (map (fileIssues api) xs) @ concat (map (fileIssues api) ys)
    \<and> todoComments (analyzeFiles api st (xs @ f # ys)) =
        todoComments st @ concat (map (fileTodos api) xs) @ concat (map (fileTodos api) ys)
    \<and> issues (analyzeFiles api st (xs @ f # ys)) = issues (analyzeFiles api st (xs @ ys))
    \<and> todoComments (analyzeFiles api st (xs @ f # ys)) =
        todoComments (analyzeFiles api st (xs @ ys))
    \<and> pkgJsonModified (analyzeFiles api st (xs @ f # ys)) =
        pkgJsonModified (analyzeFiles api st (xs @ ys))
    \<and> pkgLockModified (analyzeFiles api st (xs @ f # ys)) =
        pkgLockModified (analyzeFiles api st (xs @ ys))
    \<and> logged (analyzeFiles api st (xs @ f # ys)) =
        logged (analyzeFiles api st xs) @
        [LogError (js ''Error analyzing '' @ filename f @ js '':'') (Some e)] @
        concat (map (fileLog api) ys)
    \<and> (\<not> missingInstallation p \<and> listFiles api = Inr (xs @ f # ys) \<and>
        createComment api (compose (analyzeFiles api (initial []) (xs @ ys))) = Inr ()
        \<longrightarrow> thrown (handlePullRequest api p) = None \<and>
            posted (handlePullRequest api p) =
              Some (compose (analyzeFiles api (initial []) (xs @ ys))))"
proof -
  have fi: "fileIssues api f = []" and ft: "fileTodos api f = []"
    and fl: "fileLog api f = [LogError (js ''Error analyzing '' @ filename f @ js '':'') (Some e)]"
    using assms by (simp_all add: fileIssues_def fileTodos_def fileLog_def)
  have nj: "filename f \<noteq> js ''package.json''" and nl: "filename f \<noteq> js ''package-lock.json''"
    using assms(1) package_files_not_eligible [of f] by auto
  have i0: "issues (analyzeFiles api st (xs @ f # ys)) =
      issues st @ concat (map (fileIssues api) xs) @ concat (map (fileIssues api) ys)"
    by (simp add: analyzeFiles_issues fi)
  have t0: "todoComments (analyzeFiles api st (xs @ f # ys)) =
      todoComments st @ concat (map (fileTodos api) xs) @ concat (map (fileTodos api) ys)"
    by (simp add: analyzeFiles_todos ft)
  have i: "issues (analyzeFiles api st (xs @ f # ys)) = issues (analyzeFiles api st (xs @ ys))"
    for st
    by (simp add: analyzeFiles_issues fi)
  have t: "todoComments (analyzeFiles api st (xs @ f # ys)) =
      todoComments (analyzeFiles api st (xs @ ys))" for st
    by (simp add: analyzeFiles_todos ft)
  have j: "pkgJsonModified (analyzeFiles api st (xs @ f # ys)) =
      pkgJsonModified (analyzeFiles api st (xs @ ys))" for st
    using nj by (auto simp: analyzeFiles_pkgJson)
  have k: "pkgLockModified (analyzeFiles api st (xs @ f # ys)) =
      pkgLockModified (analyzeFiles api st (xs @ ys))" for st
    using nl by (auto simp: analyzeFiles_pkgLock)
  have l: "logged (analyzeFiles api st (xs @ f # ys)) =
      logged (analyzeFiles api st xs) @
      [LogError (js ''Error analyzing '' @ filename f @ js '':'') (Some e)] @
      concat (map (fileLog api) ys)"
    by (simp add: analyzeFiles_logged fl)
  have c: "compose (analyzeFiles api (initial l0) (xs @ f # ys)) =
      compose (analyzeFiles api (initial []) (xs @ ys))" for l0
  proof -
    have "compose (analyzeFiles api (initial l0) (xs @ f # ys)) =
        compose (analyzeFiles api (initial l0) (xs @ ys))"
      by (simp only: compose_fields i t j k)
    also have "\<dots> = compose (analyzeFiles api (initial []) (xs @ ys))"
      by (simp add: compose_fields analyzeFiles_issues analyzeFiles_todos
          analyzeFiles_pkgJson analyzeFiles_pkgLock initial_def)
    finally show ?thesis .
  qed
  have h: "thrown (handlePullRequest api p) = None \<and>
      posted (handlePullRequest api p) = Some (compose (analyzeFiles api (initial []) (xs @ ys)))"
    if "\<not> missingInstallation p" and "listFiles api = Inr (xs @ f # ys)"
      and "createComment api (compose (analyzeFiles api (initial []) (xs @ ys))) = Inr ()"
    using that by (simp add: handlePullRequest_def Let_def c)
  from i0 t0 i t j k l h show ?thesis by blast
qed

lemma fileTodos_flaky:
  "fileTodos flakyApi \<lparr>filename = js ''one.js'', patch = Some (js ''@@ -1 +1 @@'')\<rparr> =
     [js ''- `one.js`: // TODO: x'']"
  "fileTodos flakyApi \<lparr>filename = js ''three.tsx'', patch = Some (js ''@@ -1 +1 @@'')\<rparr> =
     [js ''- `three.tsx`: // TODO: x'']"
  "fileIssues flakyApi \<lparr>filename = js ''one.js'', patch = Some (js ''@@ -1 +1 @@'')\<rparr> = []"
  "fileIssues flakyApi \<lparr>filename = js ''three.tsx'', patch = Some (js ''@@ -1 +1 @@'')\<rparr> = []"
  by (simp_all add: fileTodos_def fileIssues_def contentIssues_def flakyApi_def eligible_def
      endsWith_def truthy_def todo_line_metrics [unfolded js_def, simplified] todoComment_def
      js_def)

theorem fetch_failure_tolerated_witness:
  "eligible \<lparr>filename = js ''two.ts'', patch = Some (js ''@@ -1 +1 @@'')\<rparr>
   \<and> getContent flakyApi (js ''two.ts'') = Inl (RequestError (js ''Not Found''))
   \<and> \<not> missingInstallation examplePayload
   \<and> listFiles flakyApi = Inr threeFiles
   \<and> issues (analyzeFiles flakyApi (initial []) threeFiles) = []
   \<and> todoComments (analyzeFiles flakyApi (initial []) threeFiles) =
       [js ''- `one.js`: // TODO: x'', js ''- `three.tsx`: // TODO: x'']
   \<and> logged (analyzeFiles flakyApi (initial []) threeFiles) =
       [LogInfo (js ''Analyzing one.js:''),
        LogError (js ''Error analyzing two.ts:'') (Some (RequestError (js ''Not Found''))),
        LogInfo (js ''Analyzing three.tsx:'')]
   \<and> thrown (handlePullRequest flakyApi examplePayload) = None
   \<and> posted (handlePullRequest flakyApi examplePayload) =
       Some (titleLine @ noIssuesLine @ todoHeading @
             js ''- `one.js`: // TODO: x\<newline>- `three.tsx`: // TODO: x'' @ todoReminder)"
proof -
  let ?f = "\<lparr>filename = js ''two.ts'', patch = Some (js ''@@ -1 +1 @@'')\<rparr>"
  let ?xs = "[\<lparr>filename = js ''one.js'', patch = Some (js ''@@ -1 +1 @@'')\<rparr>]"
  let ?ys = "[\<lparr>filename = js ''three.tsx'', patch = Some (js ''@@ -1 +1 @@'')\<rparr>]"
  have e: "eligible ?f"
    by (simp add: eligible_def endsWith_def truthy_def js_def)
  have g: "getContent flakyApi (filename ?f) = Inl (RequestError (js ''Not Found''))"
    by (simp add: flakyApi_def)
  have m: "\<not> missingInstallation examplePayload"
    by (simp add: missingInstallation_def examplePayload_def)
  have ls: "listFiles flakyApi = Inr (?xs @ ?f # ?ys)"
    by (simp add: flakyApi_def threeFiles_def)
  have cc: "createComment flakyApi (compose (analyzeFiles flakyApi (initial []) (?xs @ ?ys))) = Inr ()"
    by (simp add: flakyApi_def)
  have th: "threeFiles = ?xs @ ?f # ?ys"
    by (simp add: threeFiles_def)
  have lg: "logged (analyzeFiles flakyApi (initial []) ?xs) = [LogInfo (js ''Analyzing one.js:'')]"
    "concat (map (fileLog flakyApi) ?ys) = [LogInfo (js ''Analyzing three.tsx:'')]"
    by (simp_all add: analyzeFiles_logged fileLog_def flakyApi_def eligible_def endsWith_def
        truthy_def initial_def js_def)
  have body: "compose (analyzeFiles flakyApi (initial []) (?xs @ ?ys)) =
      titleLine @ noIssuesLine @ todoHeading @
      js ''- `one.js`: // TODO: x\<newline>- `three.tsx`: // TODO: x'' @ todoReminder"
    by (simp add: compose_fields analyzeFiles_issues analyzeFiles_todos analyzeFiles_pkgJson
        analyzeFiles_pkgLock fileTodos_flaky initial_def issuesSection_def todoSection_def)
      (simp add: js_def)
  note T = fetch_failure_tolerated [OF e g, of "initial []" ?xs ?ys examplePayload]
  have i: "issues (analyzeFiles flakyApi (initial []) (?xs @ ?f # ?ys)) = []"
    unfolding T [THEN conjunct1] by (simp add: fileTodos_flaky initial_def)
  have t: "todoComments (analyzeFiles flakyApi (initial []) (?xs @ ?f # ?ys)) =
      [js ''- `one.js`: // TODO: x'', js ''- `three.tsx`: // TODO: x'']"
    unfolding T [THEN conjunct2, THEN conjunct1] by (simp add: fileTodos_flaky initial_def)
  have l: "logged (analyzeFiles flakyApi (initial []) (?xs @ ?f # ?ys)) =
      [LogInfo (js ''Analyzing one.js:''),
       LogError (js ''Error analyzing two.ts:'') (Some (RequestError (js ''Not Found''))),
       LogInfo (js ''Analyzing three.tsx:'')]"
    unfolding T [THEN conjunct2, THEN conjunct2, THEN conjunct2, THEN conjunct2, THEN conjunct2,
        THEN conjunct2, THEN conjunct1] lg
    by (simp add: js_def)
  have h: "thrown (handlePullRequest flakyApi examplePayload) = None \<and>
      posted (handlePullRequest flakyApi examplePayload) =
        Some (compose (analyzeFiles flakyApi (initial []) (?xs @ ?ys)))"
    using T [THEN conjunct2, THEN conjunct2, THEN conjunct2, THEN conjunct2, THEN conjunct2,
        THEN conjunct2, THEN conjunct2] m ls cc
    by blast
  have g': "getContent flakyApi (js ''two.ts'') = Inl (RequestError (js ''Not Found''))"
    using g by simp
  have ls': "listFiles flakyApi = Inr threeFiles"
    by (simp add: flakyApi_def)
  from e g' m ls' i t l h show ?thesis
    unfolding th body by blast
qed


section \<open>The extractors never throw\<close>

text \<open>
  Claim C9. On every string each extractor returns a value and throws nothing: with the
  failures of the JavaScript operations written out, \<open>countLines\<close>, \<open>countMethods\<close> and
  \<open>findTodos\<close> return (\<open>Inr\<close>) what the functions above compute. In particular a text
  without a counted line gives the count 0, a text in which none of the three method
  patterns has a match (each \<^verbatim>\<open>match\<close> is \<^verbatim>\<open>null\<close>) gives the count 0, and a text
  without a match of the todo pattern gives the empty list.
\<close>

theorem extractors_never_throw:
  "countLinesChecked T = Inr (countLines T)
   \<and> countMethodsChecked T = Inr (countMethods T)
   \<and> findTodosChecked T = Inr (findTodos T)
   \<and> (filter lineFilter (split_nl T) = [] \<longrightarrow> countLinesChecked T = Inr 0)
   \<and> (stringMatch gm functionRegex T = None \<and> stringMatch gm arrowFunctionRegex T = None \<and>
       stringMatch gm regularFunctionRegex T = None \<longrightarrow> countMethodsChecked T = Inr 0)
   \<and> (matchAll gi todoRegex T = [] \<longrightarrow> findTodosChecked T = Inr [])"
proof -
  have l: "lengthOf (orArray x []) = Inr (length (orEmpty x))" for x :: "jsstring list option"
    by (cases x) (simp_all add: lengthOf_def orArray_def orEmpty_def)
  have a: "countLinesChecked T = Inr (countLines T)"
    by (simp add: countLinesChecked_def lengthOf_def countLines_def)
  have b: "countMethodsChecked T = Inr (countMethods T)"
    by (simp add: countMethodsChecked_def l countMethods_def Let_def)
  have c: "findTodosChecked T = Inr (findTodos T)"
    by (simp add: findTodosChecked_def matchAllChecked_def findTodos_def)
  have a0: "countLines T = 0" if "filter lineFilter (split_nl T) = []"
    using that by (simp add: countLines_def)
  have b0: "countMethods T = 0"
    if "stringMatch gm functionRegex T = None \<and> stringMatch gm arrowFunctionRegex T = None \<and>
       stringMatch gm regularFunctionRegex T = None"
    using that by (simp add: countMethods_def Let_def orEmpty_def)
  have c0: "findTodos T = []" if "matchAll gi todoRegex T = []"
    using that by (simp add: findTodos_def)
  from a b c a0 b0 c0 show ?thesis by simp
qed

theorem extractors_never_throw_witness:
  "filter lineFilter (split_nl (js ''// note\<newline>\<newline> * x'')) = []
   \<and> stringMatch gm functionRegex (js ''// note\<newline>\<newline> * x'') = None
   \<and> stringMatch gm arrowFunctionRegex (js ''// note\<newline>\<newline> * x'') = None
   \<and> stringMatch gm regularFunctionRegex (js ''// note\<newline>\<newline> * x'') = None
   \<and> matchAll gi todoRegex (js ''// note\<newline>\<newline> * x'') = []
   \<and> countLinesChecked (js ''// note\<newline>\<newline> * x'') = Inr 0
   \<and> countMethodsChecked (js ''// note\<newline>\<newline> * x'') = Inr 0
   \<and> findTodosChecked (js ''// note\<newline>\<newline> * x'') = Inr []"
proof -
  let ?T = "js ''// note\<newline>\<newline> * x''"
  have h1: "filter lineFilter (split_nl ?T) = []"
    by (simp add: eval_defs)
  have h2: "stringMatch gm functionRegex ?T = None"
    by (simp add: eval_defs)
  have h3: "stringMatch gm arrowFunctionRegex ?T = None"
    by (simp add: eval_defs)
  have h4: "stringMatch gm regularFunctionRegex ?T = None"
    by (simp add: eval_defs)
  have h5: "matchAll gi todoRegex ?T = []"
    by (simp add: eval_defs)
  from extractors_never_throw [of ?T] h1 h2 h3 h4 h5 show ?thesis by blast
qed


section \<open>The todo fragments of a tidy text\<close>

















end
